theory Spec2Isabelle
  imports Main "HOL-Library.Char_ord" "HOL-Library.List_Lexorder"
begin

section \<open>The court-records downloader (UYAP Turkish Court Records/scrape.py)\<close>

subsection \<open>Data\<close>

text \<open>
  Scalar JSON values as Python holds them after \<^verbatim>\<open>json.loads\<close>. A record of a result page is
  a JSON object, kept as an association list read with \<open>map_of\<close> (Python's \<^verbatim>\<open>r.get(k, d)\<close>).
  Floats and nested values do not occur in the fields the script reads and are left out.
\<close>

datatype jval = JNull | JBool bool | JInt int | JStr string

type_synonym doc_record = "(string \<times> jval) list"

text \<open>A CSV row: the cells in the order of \<^verbatim>\<open>CSV_COLUMNS\<close>.\<close>

type_synonym row = "jval list"

text \<open>
  The progress file. Only \<^verbatim>\<open>save_progress\<close> writes it, so a complete file is a JSON object
  whose keys \<^verbatim>\<open>pages_done\<close> and \<^verbatim>\<open>ids_downloaded\<close>, when present, hold a list of integers and a
  list of strings. \<open>Truncated\<close> is a file holding a proper prefix of such a text (the empty
  text included), which \<^verbatim>\<open>json.load\<close> rejects. \<^verbatim>\<open>json.dump\<close> and \<^verbatim>\<open>json.load\<close> are the
  library's: the model takes a completely written document to be read back as written.
\<close>

record progress_doc =
  doc_pages_done :: "int list option"
  doc_ids_downloaded :: "string list option"

datatype disk_file = Missing | Truncated | Doc progress_doc

datatype error = JSONDecodeError

record progress =
  pages_done :: "int set"
  ids_downloaded :: "string set"

text \<open>
  What a run does, in program order: the request for a result page, the submission of a
  document download to the pool, the collection of a finished download (with whether it
  returned), a row appended to the CSV file, \<^verbatim>\<open>pages_done.add\<close>, and \<^verbatim>\<open>save_progress\<close>.
\<close>

datatype event =
    FetchPage int
  | Submit int string
  | Settled int string bool
  | AppendRow row
  | MarkDone int
  | SaveProgress "int set" "string set"

record state = progress +
  progress_file :: disk_file
  csv_file :: "row list option"
  trace :: "event list"

text \<open>
  The world outside the script. \<open>post_aramadetaylist env p\<close> is the list
  \<^verbatim>\<open>data.get("data", {}).get("data", [])\<close> of the response for page \<open>p\<close>, or \<open>None\<close> when the
  request raises (HTTP error, undecodable body). \<open>download_document env p d\<close> is the text
  returned for document \<open>d\<close> when it is requested while page \<open>p\<close> is processed, or \<open>None\<close>
  when that request raises. \<open>completion env p\<close> decides the order in which the downloads of
  page \<open>p\<close> finish, \<open>order_pages\<close> and \<open>order_ids\<close> the order in which Python lists a set.
\<close>

record env =
  post_aramadetaylist :: "int \<Rightarrow> doc_record list option"
  download_document :: "int \<Rightarrow> string \<Rightarrow> string option"
  completion :: "int \<Rightarrow> nat \<Rightarrow> nat"
  order_pages :: "int set \<Rightarrow> nat \<Rightarrow> nat"
  order_ids :: "string set \<Rightarrow> nat \<Rightarrow> nat"

subsection \<open>Configuration\<close>

definition TOTAL_PAGES_TO_FETCH :: int where
  "TOTAL_PAGES_TO_FETCH = 63815"

definition CSV_COLUMNS :: "string list" where
  "CSV_COLUMNS = [''id'', ''daire'', ''esasNo'', ''kararNo'', ''kararTarihi'',
     ''arananKelime'', ''durum'', ''index'', ''doc_text'']"

subsection \<open>Python's \<^verbatim>\<open>str\<close>, unordered iteration\<close>

fun str_nat :: "nat \<Rightarrow> string" where
  "str_nat n = (if n < 10 then [''0123456789'' ! n]
     else str_nat (n div 10) @ [''0123456789'' ! (n mod 10)])"

declare str_nat.simps [simp del]

definition str_int :: "int \<Rightarrow> string" where
  "str_int i = (if i < 0 then CHR ''-'' # str_nat (nat (- i)) else str_nat (nat i))"

fun str_py :: "jval \<Rightarrow> string" where
  "str_py JNull = ''None''"
| "str_py (JBool b) = (if b then ''True'' else ''False'')"
| "str_py (JInt i) = str_int i"
| "str_py (JStr s) = s"

text \<open>
  A pool of pending items is drained in an order the program does not control:
  \<open>pick n\<close> (taken modulo \<open>n\<close>) is the position, among the \<open>n\<close> items still pending, of the
  one that comes next. Every order of the items is obtained from some \<open>pick\<close>, and every
  \<open>pick\<close> yields each item exactly once. This is \<^verbatim>\<open>as_completed(futures)\<close>.
\<close>

function as_completed :: "(nat \<Rightarrow> nat) \<Rightarrow> 'a list \<Rightarrow> 'a list" where
  "as_completed pick xs =
     (if xs = [] then []
      else let i = pick (length xs) mod length xs
           in xs ! i # as_completed pick (take i xs @ drop (Suc i) xs))"
  by pat_completeness auto
termination
proof (relation "measure (\<lambda>(pick, xs). length xs)")
  show "wf (measure (\<lambda>(pick, xs). length xs))" by simp
next
  fix pick :: "nat \<Rightarrow> nat" and xs :: "'a list" and i
  assume "xs \<noteq> []" and "i = pick (length xs) mod length xs"
  then have "i < length xs" by simp
  then show "((pick, take i xs @ drop (Suc i) xs), (pick, xs)) \<in> measure (\<lambda>(pick, xs). length xs)"
    by simp
qed

declare as_completed.simps [simp del]

text \<open>\<^verbatim>\<open>list(s)\<close> for a Python set \<open>s\<close>: its elements, each once, in some order.\<close>

definition list_py :: "(nat \<Rightarrow> nat) \<Rightarrow> ('a :: linorder) set \<Rightarrow> 'a list" where
  "list_py pick s = as_completed pick (sorted_list_of_set s)"

subsection \<open>Helper functions of the script\<close>

text \<open>
  Reading and writing the local files is taken to succeed: the script handles no error of
  the file system, and none is modelled. \<^verbatim>\<open>load_progress\<close> raises when the file is there
  and is not JSON.
\<close>

definition load_progress :: "disk_file \<Rightarrow> error + progress" where
  "load_progress f =
     (case f of
        Missing \<Rightarrow> Inr \<lparr>pages_done = {}, ids_downloaded = {}\<rparr>
      | Truncated \<Rightarrow> Inl JSONDecodeError
      | Doc d \<Rightarrow> Inr \<lparr>pages_done = set (case doc_pages_done d of None \<Rightarrow> [] | Some xs \<Rightarrow> xs),
                      ids_downloaded = set (case doc_ids_downloaded d of None \<Rightarrow> [] | Some xs \<Rightarrow> xs)\<rparr>)"

text \<open>
  \<^verbatim>\<open>save_progress\<close> is two statements: \<^verbatim>\<open>open(filepath, "w")\<close>, which empties the file, and
  \<^verbatim>\<open>json.dump(data, f)\<close> (with the close that ends the \<^verbatim>\<open>with\<close> block), after which the file
  holds the document. \<open>save_progress_steps\<close> lists them; \<open>save_progress_crash k\<close> is the file
  left by a process that dies after \<open>k\<close> of them.
\<close>

definition progress_data :: "env \<Rightarrow> int set \<Rightarrow> string set \<Rightarrow> progress_doc" where
  "progress_data env pd ids =
     \<lparr>doc_pages_done = Some (list_py (order_pages env pd) pd),
      doc_ids_downloaded = Some (list_py (order_ids env ids) ids)\<rparr>"

definition open_w :: "disk_file \<Rightarrow> disk_file" where
  "open_w f = Truncated"

definition json_dump :: "progress_doc \<Rightarrow> disk_file \<Rightarrow> disk_file" where
  "json_dump d f = Doc d"

definition save_progress_steps :: "env \<Rightarrow> int set \<Rightarrow> string set \<Rightarrow> (disk_file \<Rightarrow> disk_file) list" where
  "save_progress_steps env pd ids = [open_w, json_dump (progress_data env pd ids)]"

definition save_progress_crash :: "nat \<Rightarrow> env \<Rightarrow> int set \<Rightarrow> string set \<Rightarrow> disk_file \<Rightarrow> disk_file" where
  "save_progress_crash k env pd ids f = foldl (\<lambda>f step. step f) f (take k (save_progress_steps env pd ids))"

definition save_progress :: "env \<Rightarrow> int set \<Rightarrow> string set \<Rightarrow> disk_file \<Rightarrow> disk_file" where
  "save_progress env pd ids f = foldl (\<lambda>f step. step f) f (save_progress_steps env pd ids)"

definition init_csv_file :: "row list option \<Rightarrow> row list option" where
  "init_csv_file csv = (case csv of None \<Rightarrow> Some [map JStr CSV_COLUMNS] | Some rows \<Rightarrow> Some rows)"

definition append_row_to_csv :: "row \<Rightarrow> row list option \<Rightarrow> row list option" where
  "append_row_to_csv r csv = (case csv of None \<Rightarrow> Some [r] | Some rows \<Rightarrow> Some (rows @ [r]))"

subsection \<open>The main loop\<close>

text \<open>\<^verbatim>\<open>r.get(k, "")\<close>.\<close>

definition get_field :: "doc_record \<Rightarrow> string \<Rightarrow> jval" where
  "get_field r k = (case map_of r k of None \<Rightarrow> JStr '''' | Some v \<Rightarrow> v)"

text \<open>
  \<^verbatim>\<open>metadata_by_id[doc_id] = r\<close> on a Python dict, which keeps insertion order: a key already
  present keeps its place and takes the new value, a new key goes to the end.
\<close>

fun dict_set :: "string \<Rightarrow> doc_record \<Rightarrow> (string \<times> doc_record) list \<Rightarrow> (string \<times> doc_record) list" where
  "dict_set k v [] = [(k, v)]"
| "dict_set k v ((k', v') # m) = (if k' = k then (k, v) # m else (k', v') # dict_set k v m)"

text \<open>\<^verbatim>\<open>doc_id = str(r.get("id", ""))\<close>.\<close>

definition doc_id_of :: "doc_record \<Rightarrow> string" where
  "doc_id_of r = str_py (get_field r ''id'')"

definition add_metadata :: "(string \<times> doc_record) list \<Rightarrow> doc_record \<Rightarrow> (string \<times> doc_record) list" where
  "add_metadata m r = (let doc_id = doc_id_of r in
     if doc_id \<noteq> '''' then dict_set doc_id r m else m)"

definition metadata_by_id :: "doc_record list \<Rightarrow> (string \<times> doc_record) list" where
  "metadata_by_id records = foldl add_metadata [] records"

definition make_row :: "string \<Rightarrow> doc_record \<Rightarrow> string \<Rightarrow> row" where
  "make_row doc_id r doc_text =
     [JStr doc_id, get_field r ''daire'', get_field r ''esasNo'', get_field r ''kararNo'',
      get_field r ''kararTarihi'', get_field r ''arananKelime'', get_field r ''durum'',
      get_field r ''index'', JStr doc_text]"

text \<open>One turn of the loop over \<^verbatim>\<open>as_completed(futures)\<close>, for the future of \<open>doc_id\<close>.\<close>

definition collect :: "env \<Rightarrow> int \<Rightarrow> (string \<times> doc_record) list \<Rightarrow> state \<Rightarrow> string \<Rightarrow> state" where
  "collect env p meta s doc_id =
     (case download_document env p doc_id of
        None \<Rightarrow> s\<lparr>trace := trace s @ [Settled p doc_id False]\<rparr>
      | Some doc_text \<Rightarrow>
          (let r = make_row doc_id (case map_of meta doc_id of None \<Rightarrow> [] | Some m \<Rightarrow> m) doc_text
           in s\<lparr>ids_downloaded := insert doc_id (ids_downloaded s),
                csv_file := append_row_to_csv r (csv_file s),
                trace := trace s @ [Settled p doc_id True, AppendRow r]\<rparr>))"

text \<open>
  The \<^verbatim>\<open>with ThreadPoolExecutor\<close> block: every identifier of the page that is not in
  \<^verbatim>\<open>ids_downloaded\<close> is submitted, in dict order; then the futures are collected as they
  complete. The block is left only when the loop over the futures has ended.
\<close>

definition page_futures :: "state \<Rightarrow> doc_record list \<Rightarrow> string list" where
  "page_futures s records =
     filter (\<lambda>doc_id. doc_id \<notin> ids_downloaded s) (map fst (metadata_by_id records))"

definition download_all :: "env \<Rightarrow> int \<Rightarrow> doc_record list \<Rightarrow> state \<Rightarrow> state" where
  "download_all env p records s =
     (let futures = page_futures s records;
          s1 = s\<lparr>trace := trace s @ map (Submit p) futures\<rparr>
      in foldl (collect env p (metadata_by_id records)) s1 (as_completed (completion env p) futures))"

text \<open>\<^verbatim>\<open>pages_done.add(page_number)\<close> followed by \<^verbatim>\<open>save_progress\<close>.\<close>

definition mark_done :: "env \<Rightarrow> int \<Rightarrow> state \<Rightarrow> state" where
  "mark_done env p s =
     (let pd = insert p (pages_done s) in
      s\<lparr>pages_done := pd,
        progress_file := save_progress env pd (ids_downloaded s) (progress_file s),
        trace := trace s @ [MarkDone p, SaveProgress pd (ids_downloaded s)]\<rparr>)"

text \<open>The body of \<^verbatim>\<open>for page_number in range(1, TOTAL_PAGES_TO_FETCH + 1)\<close>.\<close>

definition page_step :: "env \<Rightarrow> state \<Rightarrow> int \<Rightarrow> state" where
  "page_step env s p =
     (if p \<in> pages_done s then s
      else let s1 = s\<lparr>trace := trace s @ [FetchPage p]\<rparr> in
        case post_aramadetaylist env p of
          None \<Rightarrow> s1
        | Some records \<Rightarrow>
            if records = [] then mark_done env p s1
            else mark_done env p (download_all env p records s1))"

definition run_pages :: "env \<Rightarrow> int list \<Rightarrow> state \<Rightarrow> state" where
  "run_pages env ps s = foldl (page_step env) s ps"

definition start :: "progress \<Rightarrow> disk_file \<Rightarrow> row list option \<Rightarrow> state" where
  "start pr pf csv =
     \<lparr>pages_done = pages_done pr, ids_downloaded = ids_downloaded pr,
      progress_file = pf, csv_file = init_csv_file csv, trace = []\<rparr>"

definition main :: "env \<Rightarrow> disk_file \<Rightarrow> row list option \<Rightarrow> error + state" where
  "main env pf csv =
     (case load_progress pf of
        Inl e \<Rightarrow> Inl e
      | Inr pr \<Rightarrow> Inr (run_pages env [1..TOTAL_PAGES_TO_FETCH] (start pr pf csv)))"

subsection \<open>The events of a run\<close>

text \<open>
  The events that the loop body and the whole loop add to the trace, written out: they
  are what the properties below speak about. \<open>downloaded env p ds\<close> are the identifiers
  among \<open>ds\<close> whose download on page \<open>p\<close> returns.
\<close>

definition collect_events :: "env \<Rightarrow> int \<Rightarrow> (string \<times> doc_record) list \<Rightarrow> string \<Rightarrow> event list" where
  "collect_events env p meta d =
     (case download_document env p d of
        None \<Rightarrow> [Settled p d False]
      | Some doc_text \<Rightarrow>
          [Settled p d True,
           AppendRow (make_row d (case map_of meta d of None \<Rightarrow> [] | Some m \<Rightarrow> m) doc_text)])"

definition downloaded :: "env \<Rightarrow> int \<Rightarrow> string list \<Rightarrow> string set" where
  "downloaded env p ds = set (filter (\<lambda>d. download_document env p d \<noteq> None) ds)"

definition page_head :: "int \<Rightarrow> string list \<Rightarrow> event list" where
  "page_head p fs = FetchPage p # map (Submit p) fs"

definition page_settles :: "env \<Rightarrow> int \<Rightarrow> doc_record list \<Rightarrow> string list \<Rightarrow> event list" where
  "page_settles env p rs fs =
     concat (map (collect_events env p (metadata_by_id rs)) (as_completed (completion env p) fs))"

definition page_tail :: "env \<Rightarrow> state \<Rightarrow> int \<Rightarrow> string list \<Rightarrow> event list" where
  "page_tail env s p fs =
     [MarkDone p, SaveProgress (insert p (pages_done s)) (ids_downloaded s \<union> downloaded env p fs)]"

definition page_events :: "env \<Rightarrow> state \<Rightarrow> int \<Rightarrow> event list" where
  "page_events env s p =
     (if p \<in> pages_done s then []
      else case post_aramadetaylist env p of
        None \<Rightarrow> [FetchPage p]
      | Some records \<Rightarrow>
          (let fs = page_futures s records in
           page_head p fs @ page_settles env p records fs @ page_tail env s p fs))"

fun run_events :: "env \<Rightarrow> int list \<Rightarrow> state \<Rightarrow> event list" where
  "run_events env [] s = []"
| "run_events env (p # ps) s = page_events env s p @ run_events env ps (page_step env s p)"

text \<open>The trace of a whole run, and the pages on which a run submitted a given document.\<close>

definition main_trace :: "env \<Rightarrow> disk_file \<Rightarrow> row list option \<Rightarrow> error + event list" where
  "main_trace env pf csv = map_sum id trace (main env pf csv)"

fun submissions :: "string \<Rightarrow> event list \<Rightarrow> int list" where
  "submissions d [] = []"
| "submissions d (Submit p d' # es) = (if d' = d then p # submissions d es else submissions d es)"
| "submissions d (e # es) = submissions d es"


section \<open>The company-list scraper (ZaubaCorp/scrape.py)\<close>

text \<open>
  What one turn of \<^verbatim>\<open>for attempt in range(3)\<close> in \<^verbatim>\<open>scrape_page\<close> meets: a response whose
  status is not 200, an exception inside the \<^verbatim>\<open>try\<close> block (a timeout, a connection error,
  a body without \<^verbatim>\<open>browserHtml\<close>), a page without the table, or the rows of the table.
\<close>

datatype attempt_outcome =
    Status_error
  | Raised
  | No_table
  | Table "(string \<times> string) list"

text \<open>
  The result of \<^verbatim>\<open>scrape_page\<close>, with the attempts it made and the seconds it slept, in
  order.
\<close>

record scrape_log =
  companies :: "(string \<times> string) list option"
  attempts :: "nat list"
  sleeps :: "nat list"

definition after_failure :: "nat \<Rightarrow> nat list \<Rightarrow> scrape_log \<Rightarrow> scrape_log" where
  "after_failure attempt slept l = l\<lparr>attempts := attempt # attempts l, sleeps := slept @ sleeps l\<rparr>"

fun scrape_attempts :: "(nat \<Rightarrow> attempt_outcome) \<Rightarrow> nat list \<Rightarrow> scrape_log" where
  "scrape_attempts zyte [] = \<lparr>companies = None, attempts = [], sleeps = []\<rparr>"
| "scrape_attempts zyte (attempt # rest) =
     (case zyte attempt of
        Status_error \<Rightarrow> after_failure attempt [2 ^ attempt] (scrape_attempts zyte rest)
      | Raised \<Rightarrow> after_failure attempt (if attempt < 2 then [2 ^ attempt] else [])
                   (scrape_attempts zyte rest)
      | No_table \<Rightarrow> \<lparr>companies = None, attempts = [attempt], sleeps = []\<rparr>
      | Table cs \<Rightarrow> \<lparr>companies = Some cs, attempts = [attempt], sleeps = []\<rparr>)"

definition scrape_page :: "(nat \<Rightarrow> attempt_outcome) \<Rightarrow> scrape_log" where
  "scrape_page zyte = scrape_attempts zyte [0, 1, 2]"

text \<open>
  \<^verbatim>\<open>process_page_range\<close>: the pages of the range in order; a page is put on the results queue
  when \<^verbatim>\<open>scrape_page\<close> returned a non-empty list. \<open>zyte page attempt\<close> is what the attempt
  meets.
\<close>

definition queue_put :: "(int \<Rightarrow> nat \<Rightarrow> attempt_outcome) \<Rightarrow> int \<Rightarrow> (int \<times> (string \<times> string) list) list" where
  "queue_put zyte page =
     (case companies (scrape_page (zyte page)) of
        None \<Rightarrow> []
      | Some cs \<Rightarrow> if cs \<noteq> [] then [(page, cs)] else [])"

definition process_page_range ::
  "(int \<Rightarrow> nat \<Rightarrow> attempt_outcome) \<Rightarrow> int \<Rightarrow> int \<Rightarrow> (int \<times> (string \<times> string) list) list" where
  "process_page_range zyte start_page end_page = concat (map (queue_put zyte) [start_page..end_page])"

text \<open>
  The scraper object: \<open>saved_page\<close> is the number held by \<^verbatim>\<open>progress.txt\<close> (\<open>None\<close> when the
  file is absent; the file is only written by \<^verbatim>\<open>save_progress\<close>, as \<^verbatim>\<open>str\<close> of a page number),
  \<open>companies_file\<close> the rows of \<^verbatim>\<open>companies.csv\<close>, \<open>scraped\<close> the pages handed to \<^verbatim>\<open>scrape_page\<close>
  so far, in the order of the ranges. \<open>max_workers\<close> is positive in every use:
  \<^verbatim>\<open>ThreadPoolExecutor\<close> accepts nothing else.
\<close>

record CompanyScraper =
  current_page :: int
  companies_found :: int
  max_workers :: int
  saved_page :: "int option"
  companies_file :: "(string \<times> string) list option"
  scraped :: "int list"

definition total_companies_target :: int where
  "total_companies_target = 3000000"

definition CompanyScraper_load_progress :: "int option \<Rightarrow> int" where
  "CompanyScraper_load_progress f = (case f of None \<Rightarrow> 1 | Some n \<Rightarrow> n)"

definition CompanyScraper_save_progress :: "CompanyScraper \<Rightarrow> CompanyScraper" where
  "CompanyScraper_save_progress sc = sc\<lparr>saved_page := Some (current_page sc)\<rparr>"

definition count_existing_companies :: "(string \<times> string) list option \<Rightarrow> int" where
  "count_existing_companies f = (case f of None \<Rightarrow> 0 | Some rows \<Rightarrow> int (length rows) - 1)"

text \<open>\<^verbatim>\<open>__init__\<close>, given the two files as the process finds them.\<close>

definition CompanyScraper_init ::
  "int \<Rightarrow> int option \<Rightarrow> (string \<times> string) list option \<Rightarrow> CompanyScraper" where
  "CompanyScraper_init workers progress_txt companies_csv =
     \<lparr>current_page = CompanyScraper_load_progress progress_txt, companies_found = 0,
      max_workers = workers, saved_page = progress_txt, companies_file = companies_csv,
      scraped = []\<rparr>"

definition save_companies_batch :: "(string \<times> string) list \<Rightarrow> CompanyScraper \<Rightarrow> CompanyScraper" where
  "save_companies_batch cs sc =
     (if cs = [] then sc
      else sc\<lparr>companies_file :=
        (case companies_file sc of
           None \<Rightarrow> Some ((''CIN'', ''Company Name'') # cs)
         | Some rows \<Rightarrow> Some (rows @ cs))\<rparr>)"

text \<open>The page ranges given to the workers of one batch.\<close>

definition batch_ranges :: "CompanyScraper \<Rightarrow> (int \<times> int) list" where
  "batch_ranges sc =
     (let batch_size = max_workers sc * 2;
          end_page = current_page sc + batch_size - 1
      in map (\<lambda>i. let start = current_page sc + i * (batch_size div max_workers sc);
                      end = start + (batch_size div max_workers sc) - 1
                  in (start, if end > end_page then end_page else end))
           [0..max_workers sc - 1])"

text \<open>One result taken from the queue.\<close>

definition take_result ::
  "CompanyScraper \<times> int set \<Rightarrow> int \<times> (string \<times> string) list \<Rightarrow> CompanyScraper \<times> int set" where
  "take_result acc item =
     (case acc of (sc, completed_pages) \<Rightarrow>
      case item of (page, cs) \<Rightarrow>
        if cs \<noteq> [] then
          ((save_companies_batch cs sc)\<lparr>companies_found := companies_found sc + int (length cs)\<rparr>,
           insert page completed_pages)
        else (sc, completed_pages))"

text \<open>
  One turn of the \<^verbatim>\<open>while\<close> loop of \<^verbatim>\<open>run\<close>. The workers run concurrently; the model takes
  their results range by range and assumes that each result reaches the queue before the
  60-second timeout of \<^verbatim>\<open>queue.get\<close> ends the collecting loop.
\<close>

definition run_batch :: "(int \<Rightarrow> nat \<Rightarrow> attempt_outcome) \<Rightarrow> CompanyScraper \<Rightarrow> CompanyScraper" where
  "run_batch zyte sc =
     (let batch_size = max_workers sc * 2;
          ranges = batch_ranges sc;
          results = concat (map (\<lambda>(s, e). process_page_range zyte s e) ranges);
          (sc1, completed_pages) = foldl take_result (sc, {}) results;
          sc2 = sc1\<lparr>scraped := scraped sc1 @ concat (map (\<lambda>(s, e). [s..e]) ranges),
                    current_page := (if completed_pages \<noteq> {} then Max completed_pages + 1
                                     else current_page sc + batch_size)\<rparr>
      in CompanyScraper_save_progress sc2)"

text \<open>
  \<^verbatim>\<open>while self.companies_found < self.total_companies_target\<close>, cut off after \<open>n\<close> turns: the
  loop itself need not end.
\<close>

fun run_turns :: "nat \<Rightarrow> (int \<Rightarrow> nat \<Rightarrow> attempt_outcome) \<Rightarrow> CompanyScraper \<Rightarrow> CompanyScraper" where
  "run_turns 0 zyte sc = sc"
| "run_turns (Suc n) zyte sc =
     (if companies_found sc < total_companies_target then run_turns n zyte (run_batch zyte sc)
      else sc)"

text \<open>\<^verbatim>\<open>run\<close>, cut off after \<open>n\<close> turns of its loop.\<close>

definition CompanyScraper_run ::
  "nat \<Rightarrow> (int \<Rightarrow> nat \<Rightarrow> attempt_outcome) \<Rightarrow> CompanyScraper \<Rightarrow> CompanyScraper" where
  "CompanyScraper_run n zyte sc =
     run_turns n zyte (sc\<lparr>companies_found := count_existing_companies (companies_file sc)\<rparr>)"

section \<open>Inputs used in the examples\<close>

text \<open>
  A remote side on which page 3 always answers with a status other than 200 and every
  other page lists one company.
\<close>

definition zyte_page3_down :: "int \<Rightarrow> nat \<Rightarrow> attempt_outcome" where
  "zyte_page3_down page attempt = (if page = 3 then Status_error else Table [(''U1'', ''Acme'')])"

text \<open>A remote side on which every request fails.\<close>

definition env_down :: env where
  "env_down =
     \<lparr>post_aramadetaylist = (\<lambda>p. None), download_document = (\<lambda>p d. None),
      completion = (\<lambda>p n. 0), order_pages = (\<lambda>s n. 1), order_ids = (\<lambda>s n. 1)\<rparr>"

text \<open>
  Two result pages: page 1 lists document 7 (its download fails there), a record with an
  empty identifier, a record without one and document b; page 2 lists documents 7 and c,
  of which c completes first. Every other page cannot be requested.
\<close>

definition env_ex :: env where
  "env_ex =
     \<lparr>post_aramadetaylist = (\<lambda>p.
        if p = 1 then Some [[(''id'', JInt 7), (''daire'', JStr ''x'')], [(''id'', JStr '''')],
                            [(''daire'', JStr ''y'')], [(''id'', JStr ''b'')]]
        else if p = 2 then Some [[(''id'', JStr ''7'')], [(''id'', JStr ''c'')]]
        else None),
      download_document = (\<lambda>p d. if p = 1 \<and> d = ''7'' then None else Some (''text of '' @ d)),
      completion = (\<lambda>p n. 1), order_pages = (\<lambda>s n. 0), order_ids = (\<lambda>s n. 0)\<rparr>"


text \<open>
  A progress file that marks pages 3 and up as done and document b as downloaded, and the
  states in which \<^verbatim>\<open>main\<close> ends when it starts from this file and no CSV file.
\<close>

definition pf_ex :: disk_file where
  "pf_ex = Doc \<lparr>doc_pages_done = Some [3..TOTAL_PAGES_TO_FETCH], doc_ids_downloaded = Some [''b'']\<rparr>"

definition s_ex :: state where
  "s_ex = run_pages env_ex [1..TOTAL_PAGES_TO_FETCH]
     (start \<lparr>pages_done = {3..TOTAL_PAGES_TO_FETCH}, ids_downloaded = {''b''}\<rparr> pf_ex None)"

definition s_down :: state where
  "s_down = run_pages env_down [1..TOTAL_PAGES_TO_FETCH]
     (start \<lparr>pages_done = {3..TOTAL_PAGES_TO_FETCH}, ids_downloaded = {''b''}\<rparr> pf_ex None)"

section \<open>Properties of the court-records downloader\<close>

subsection \<open>Unordered iteration yields every element once\<close>

lemma set_as_completed: "set (as_completed pick xs) = set xs"
proof (induction pick xs rule: as_completed.induct)
  case (1 pick xs)
  show ?case
  proof (cases "xs = []")
    case True
    then show ?thesis by (simp add: as_completed.simps)
  next
    case False
    define i where "i = pick (length xs) mod length xs"
    have i: "i < length xs" using False by (simp add: i_def)
    have "set (as_completed pick xs) = insert (xs ! i) (set (take i xs @ drop (Suc i) xs))"
      using False 1[OF False i_def] by (subst as_completed.simps) (simp add: i_def Let_def)
    also have "\<dots> = set (take i xs @ xs ! i # drop (Suc i) xs)" by simp
    also have "\<dots> = set xs" using i by (simp only: id_take_nth_drop[symmetric])
    finally show ?thesis .
  qed
qed

lemma length_as_completed: "length (as_completed pick xs) = length xs"
proof (induction pick xs rule: as_completed.induct)
  case (1 pick xs)
  show ?case
  proof (cases "xs = []")
    case True
    then show ?thesis by (simp add: as_completed.simps)
  next
    case False
    define i where "i = pick (length xs) mod length xs"
    have i: "i < length xs" using False by (simp add: i_def)
    have "length (as_completed pick xs) = Suc (length (take i xs @ drop (Suc i) xs))"
      using False 1[OF False i_def] by (subst as_completed.simps) (simp add: i_def Let_def)
    also have "\<dots> = length xs" using i by simp
    finally show ?thesis .
  qed
qed

lemma set_list_py: "finite s \<Longrightarrow> set (list_py pick s) = s"
  by (simp add: list_py_def set_as_completed)

subsection \<open>The progress file\<close>

lemma save_progress_eq: "save_progress env pd ids f = Doc (progress_data env pd ids)"
  by (simp add: save_progress_def save_progress_steps_def json_dump_def)

lemma load_saved:
  "finite pd \<Longrightarrow> finite ids \<Longrightarrow>
   load_progress (save_progress env pd ids f) = Inr \<lparr>pages_done = pd, ids_downloaded = ids\<rparr>"
  by (simp add: save_progress_eq load_progress_def progress_data_def set_list_py)

text \<open>
  C8. A progress state saved with \<^verbatim>\<open>save_progress\<close> and read back with \<^verbatim>\<open>load_progress\<close> is
  the state that was saved: the same set of pages and the same set of identifiers, in
  whatever order Python listed the two sets when it wrote them, and whatever the file held
  before.
\<close>

theorem save_load_round_trip:
  assumes "finite (pages_done pr)" and "finite (ids_downloaded pr)"
  shows "load_progress (save_progress env (pages_done pr) (ids_downloaded pr) f)
         = Inr \<lparr>pages_done = pages_done pr, ids_downloaded = ids_downloaded pr\<rparr>"
  using assms by (rule load_saved)

theorem save_load_round_trip_witness:
  "finite (pages_done \<lparr>pages_done = {1, 2, 5}, ids_downloaded = {''a'', ''b''}\<rparr>)
   \<and> finite (ids_downloaded \<lparr>pages_done = {1, 2, 5}, ids_downloaded = {''a'', ''b''}\<rparr>)
   \<and> save_progress env_down {1, 2, 5} {''a'', ''b''} Missing
       = Doc \<lparr>doc_pages_done = Some [2, 5, 1], doc_ids_downloaded = Some [''b'', ''a'']\<rparr>
   \<and> load_progress (save_progress env_down {1, 2, 5} {''a'', ''b''} Missing)
       = Inr \<lparr>pages_done = {1, 2, 5}, ids_downloaded = {''a'', ''b''}\<rparr>"
proof -
  have d: "progress_data env_down {1, 2, 5} {''a'', ''b''}
           = \<lparr>doc_pages_done = Some [2, 5, 1], doc_ids_downloaded = Some [''b'', ''a'']\<rparr>"
    by code_simp
  show ?thesis
    using save_load_round_trip
      [of "\<lparr>pages_done = {1, 2, 5}, ids_downloaded = {''a'', ''b''}\<rparr>" env_down Missing]
    by (simp add: save_progress_eq d)
qed

text \<open>
  C4, as the specification states it: a crash at any point of \<^verbatim>\<open>save_progress\<close> leaves a
  file that is not truncated. It fails: the script opens the progress file itself for
  writing, so a process that dies after \<^verbatim>\<open>open\<close> and before the document is written out
  leaves a truncated file in place of a complete one, and the next \<^verbatim>\<open>load_progress\<close>
  raises.
\<close>

theorem save_progress_crash_truncates:
  "save_progress_crash 1 env_down {1} {''a''}
     (Doc \<lparr>doc_pages_done = Some [], doc_ids_downloaded = Some []\<rparr>) = Truncated
   \<and> load_progress (save_progress_crash 1 env_down {1} {''a''}
        (Doc \<lparr>doc_pages_done = Some [], doc_ids_downloaded = Some []\<rparr>)) = Inl JSONDecodeError"
  by (simp add: save_progress_crash_def save_progress_steps_def open_w_def load_progress_def)

text \<open>
  C4, amended: \<^verbatim>\<open>save_progress\<close> rewrites the progress file in place. A process that dies
  before its first statement leaves the old file; one that dies between \<^verbatim>\<open>open\<close> and the
  end of the write leaves a truncated file, which \<^verbatim>\<open>load_progress\<close> rejects with an error
  instead of reading it as a state; once both statements have run the file holds the new
  document, which is also what a completed \<^verbatim>\<open>save_progress\<close> leaves.
\<close>

theorem save_progress_in_place:
  "save_progress_crash 0 env pd ids f = f
   \<and> save_progress_crash 1 env pd ids f = Truncated
   \<and> save_progress_crash (Suc (Suc k)) env pd ids f = Doc (progress_data env pd ids)
   \<and> save_progress env pd ids f = Doc (progress_data env pd ids)
   \<and> load_progress Truncated = Inl JSONDecodeError"
  by (simp add: save_progress_crash_def save_progress_def save_progress_steps_def open_w_def
      json_dump_def load_progress_def)

subsection \<open>The trace of a run\<close>

lemma downloaded_single:
  "downloaded env p [d] = (if download_document env p d = None then {} else {d})"
  by (auto simp: downloaded_def)

lemma collect_trace: "trace (collect env p meta s d) = trace s @ collect_events env p meta d"
  by (cases "download_document env p d") (simp_all add: collect_def collect_events_def Let_def)

lemma collect_ids:
  "ids_downloaded (collect env p meta s d) = ids_downloaded s \<union> downloaded env p [d]"
  by (cases "download_document env p d") (simp_all add: collect_def downloaded_single Let_def)

lemma collect_pages: "pages_done (collect env p meta s d) = pages_done s"
  by (cases "download_document env p d") (simp_all add: collect_def Let_def)

lemma collect_file: "progress_file (collect env p meta s d) = progress_file s"
  by (cases "download_document env p d") (simp_all add: collect_def Let_def)

lemmas collect_effect = collect_trace collect_ids collect_pages collect_file

lemma downloaded_Cons: "downloaded env p (d # ds) = downloaded env p [d] \<union> downloaded env p ds"
  by (auto simp: downloaded_def)

lemma collect_fold:
  "trace (foldl (collect env p meta) s ds) = trace s @ concat (map (collect_events env p meta) ds)
   \<and> ids_downloaded (foldl (collect env p meta) s ds) = ids_downloaded s \<union> downloaded env p ds
   \<and> pages_done (foldl (collect env p meta) s ds) = pages_done s
   \<and> progress_file (foldl (collect env p meta) s ds) = progress_file s"
proof (induction ds arbitrary: s)
  case Nil
  show ?case by (simp add: downloaded_def)
next
  case (Cons d ds)
  show ?case
    by (simp add: Cons collect_effect downloaded_Cons [of env p d ds] Un_assoc)
qed

lemma page_futures_trace [simp]: "page_futures (s\<lparr>trace := t\<rparr>) records = page_futures s records"
  by (simp add: page_futures_def)

lemma download_all_effect:
  "trace (download_all env p records s) =
     trace s @ map (Submit p) (page_futures s records)
       @ concat (map (collect_events env p (metadata_by_id records))
           (as_completed (completion env p) (page_futures s records)))"
  "ids_downloaded (download_all env p records s) = ids_downloaded s \<union> downloaded env p (page_futures s records)"
  "pages_done (download_all env p records s) = pages_done s"
  "progress_file (download_all env p records s) = progress_file s"
  by (simp_all add: download_all_def Let_def collect_fold page_futures_def downloaded_def set_as_completed)

lemma downloaded_Nil [simp]: "downloaded env p [] = {}"
  by (simp add: downloaded_def)

lemma metadata_Nil [simp]: "metadata_by_id [] = []"
  by (simp add: metadata_by_id_def)

lemma page_futures_Nil [simp]: "page_futures s [] = []"
  by (simp add: page_futures_def)

lemma as_completed_Nil [simp]: "as_completed pick [] = []"
  by (simp add: as_completed.simps)

lemma page_step_trace: "trace (page_step env s p) = trace s @ page_events env s p"
  by (cases "post_aramadetaylist env p")
     (auto simp: page_step_def page_events_def page_head_def page_settles_def page_tail_def
        mark_done_def Let_def download_all_effect)

lemma page_step_pages_done:
  "pages_done (page_step env s p) =
     (if p \<in> pages_done s \<or> post_aramadetaylist env p = None then pages_done s
      else insert p (pages_done s))"
  by (cases "post_aramadetaylist env p")
     (auto simp: page_step_def mark_done_def Let_def download_all_effect)

lemma page_step_ids:
  "ids_downloaded (page_step env s p) =
     (if p \<in> pages_done s then ids_downloaded s
      else case post_aramadetaylist env p of None \<Rightarrow> ids_downloaded s
        | Some records \<Rightarrow> ids_downloaded s \<union> downloaded env p (page_futures s records))"
  by (cases "post_aramadetaylist env p")
     (auto simp: page_step_def mark_done_def Let_def download_all_effect)

lemma dict_set_keys: "fst ` set (dict_set k v m) = insert k (fst ` set m)"
proof (induction k v m rule: dict_set.induct)
  case (1 k v)
  show ?case by simp
next
  case (2 k v k' v' m)
  show ?case
  proof (cases "k' = k")
    case True
    then show ?thesis by simp
  next
    case False
    then show ?thesis using 2 by (simp add: insert_commute)
  qed
qed

lemma dict_set_distinct: "distinct (map fst m) \<Longrightarrow> distinct (map fst (dict_set k v m))"
proof (induction m)
  case Nil
  show ?case by simp
next
  case (Cons a m)
  then show ?case
    using dict_set_keys [of k v m] by (cases a) (auto simp: image_iff)
qed

lemma add_metadata_keys:
  "fst ` set (add_metadata m r) = fst ` set m \<union> (if doc_id_of r \<noteq> '''' then {doc_id_of r} else {})"
  by (simp add: add_metadata_def doc_id_of_def Let_def dict_set_keys)

lemma add_metadata_distinct: "distinct (map fst m) \<Longrightarrow> distinct (map fst (add_metadata m r))"
  by (simp add: add_metadata_def Let_def dict_set_distinct)

lemma fold_metadata_keys:
  "fst ` set (foldl add_metadata m rs) = fst ` set m \<union> (doc_id_of ` set rs - {''''})"
  by (induction rs arbitrary: m) (auto simp: add_metadata_keys split: if_splits)

lemma fold_metadata_distinct:
  "distinct (map fst m) \<Longrightarrow> distinct (map fst (foldl add_metadata m rs))"
  by (induction rs arbitrary: m) (simp_all add: add_metadata_distinct)

lemma metadata_keys: "set (map fst (metadata_by_id rs)) = doc_id_of ` set rs - {''''}"
  using fold_metadata_keys [of "[]" rs] by (simp add: metadata_by_id_def)

lemma metadata_distinct: "distinct (map fst (metadata_by_id rs))"
  using fold_metadata_distinct [of "[]" rs] by (simp add: metadata_by_id_def)

lemma page_futures_set:
  "set (page_futures s rs) = (doc_id_of ` set rs - {''''}) - ids_downloaded s"
  using metadata_keys [of rs] by (auto simp: page_futures_def)

lemma page_futures_distinct: "distinct (page_futures s rs)"
  by (simp add: page_futures_def metadata_distinct)

lemma run_pages_Nil [simp]: "run_pages env [] s = s"
  by (simp add: run_pages_def)

lemma run_pages_Cons [simp]: "run_pages env (p # ps) s = run_pages env ps (page_step env s p)"
  by (simp add: run_pages_def)

lemma run_pages_trace: "trace (run_pages env ps s) = trace s @ run_events env ps s"
  by (induction ps arbitrary: s) (simp_all add: page_step_trace)

lemma run_pages_pages_done:
  "pages_done (run_pages env ps s) = pages_done s \<union> {p \<in> set ps. post_aramadetaylist env p \<noteq> None}"
  by (induction ps arbitrary: s) (auto simp: page_step_pages_done split: if_splits)

lemma page_step_ids_mono: "ids_downloaded s \<subseteq> ids_downloaded (page_step env s p)"
  by (auto simp: page_step_ids split: option.splits)

lemma collect_events_set:
  "set (collect_events env p meta d) =
     (case download_document env p d of
        None \<Rightarrow> {Settled p d False}
      | Some t \<Rightarrow> {Settled p d True, AppendRow (make_row d (case map_of meta d of None \<Rightarrow> [] | Some m \<Rightarrow> m) t)})"
  by (simp add: collect_events_def split: option.splits)

lemma page_events_set:
  "set (page_events env s p) =
     (if p \<in> pages_done s then {}
      else case post_aramadetaylist env p of
        None \<Rightarrow> {FetchPage p}
      | Some rs \<Rightarrow>
          {FetchPage p} \<union> Submit p ` set (page_futures s rs)
          \<union> (\<Union>d \<in> set (page_futures s rs). set (collect_events env p (metadata_by_id rs) d))
          \<union> {MarkDone p, SaveProgress (insert p (pages_done s))
                (ids_downloaded s \<union> downloaded env p (page_futures s rs))})"
  by (auto simp: page_events_def page_head_def page_settles_def page_tail_def Let_def
        set_as_completed split: option.splits)

lemma split_left:
  assumes "e \<notin> set R" and "L @ R = xs @ e # ys"
  shows "\<exists>vs. L = xs @ e # vs \<and> ys = vs @ R"
proof -
  from assms(2) obtain us where
    "(L = xs @ us \<and> us @ R = e # ys) \<or> (L @ us = xs \<and> R = us @ e # ys)"
    by (auto simp: append_eq_append_conv2)
  then show ?thesis
  proof
    assume h: "L = xs @ us \<and> us @ R = e # ys"
    show ?thesis
    proof (cases us)
      case Nil
      with h assms(1) show ?thesis by auto
    next
      case (Cons u vs)
      with h show ?thesis by auto
    qed
  next
    assume "L @ us = xs \<and> R = us @ e # ys"
    with assms(1) show ?thesis by auto
  qed
qed


lemma page_head_set: "set (page_head p fs) = insert (FetchPage p) (Submit p ` set fs)"
  by (simp add: page_head_def)

lemma page_settles_set:
  "set (page_settles env p rs fs) = (\<Union>d \<in> set fs. set (collect_events env p (metadata_by_id rs) d))"
  by (simp add: page_settles_def set_as_completed)

lemma page_settles_kinds:
  "e \<in> set (page_settles env p rs fs) \<Longrightarrow>
     (\<exists>d \<in> set fs. e = Settled p d (download_document env p d \<noteq> None))
     \<or> (\<exists>d \<in> set fs. \<exists>m t. e = AppendRow (make_row d m t))"
  by (auto simp: page_settles_set collect_events_set split: option.splits)

lemma page_settles_all:
  "d \<in> set fs \<Longrightarrow> Settled p d (download_document env p d \<noteq> None) \<in> set (page_settles env p rs fs)"
  by (auto simp: page_settles_set collect_events_set split: option.splits)

lemma page_events_cases:
  "page_events env s p = []
   \<or> page_events env s p = [FetchPage p]
   \<or> (\<exists>rs. p \<notin> pages_done s \<and> post_aramadetaylist env p = Some rs \<and>
        page_events env s p =
          page_head p (page_futures s rs) @ page_settles env p rs (page_futures s rs)
            @ page_tail env s p (page_futures s rs))"
  by (cases "post_aramadetaylist env p")
     (auto simp: page_events_def page_head_def page_settles_def page_tail_def Let_def)

lemma page_head_distinct: "distinct fs \<Longrightarrow> distinct (page_head p fs)"
  by (auto simp: page_head_def distinct_map inj_on_def)

lemma page_events_full:
  assumes "e \<in> set (page_events env s p)" and "e \<noteq> FetchPage p"
  obtains rs where "p \<notin> pages_done s" and "post_aramadetaylist env p = Some rs"
    and "page_events env s p =
          page_head p (page_futures s rs) @ page_settles env p rs (page_futures s rs)
            @ page_tail env s p (page_futures s rs)"
proof -
  from page_events_cases [of env s p]
  consider "page_events env s p = []" | "page_events env s p = [FetchPage p]"
    | rs where "p \<notin> pages_done s" "post_aramadetaylist env p = Some rs"
        "page_events env s p =
          page_head p (page_futures s rs) @ page_settles env p rs (page_futures s rs)
            @ page_tail env s p (page_futures s rs)"
    by blast
  then show thesis
  proof cases
    case 1
    with assms show ?thesis by simp
  next
    case 2
    with assms show ?thesis by simp
  next
    case 3
    then show ?thesis using that by blast
  qed
qed

lemma page_submit:
  assumes "page_events env s p = xs @ Submit q d # vs"
  shows "q = p \<and> p \<notin> pages_done s \<and> d \<notin> ids_downloaded s
         \<and> (\<forall>p' d' ok. Settled p' d' ok \<notin> set xs)
         \<and> Submit q d \<notin> set xs \<and> Submit q d \<notin> set vs"
proof -
  have "Submit q d \<in> set (page_events env s p)" by (simp add: assms)
  then obtain rs where
    p: "p \<notin> pages_done s" and
    ev: "page_events env s p =
          page_head p (page_futures s rs) @ page_settles env p rs (page_futures s rs)
            @ page_tail env s p (page_futures s rs)"
    by (rule page_events_full) simp_all
  let ?fs = "page_futures s rs"
  let ?R = "page_settles env p rs ?fs @ page_tail env s p ?fs"
  have notin: "Submit q d \<notin> set ?R"
    using page_settles_kinds [of "Submit q d" env p rs ?fs] by (auto simp: page_tail_def)
  from ev assms have "page_head p ?fs @ ?R = xs @ Submit q d # vs" by simp
  from split_left [OF notin this] obtain ws where
    hd: "page_head p ?fs = xs @ Submit q d # ws" and vs: "vs = ws @ ?R" by blast
  have mem: "Submit q d \<in> set (page_head p ?fs)" by (simp add: hd)
  then have q: "q = p" and d: "d \<in> set ?fs" by (auto simp: page_head_set)
  have dist: "distinct (xs @ Submit q d # ws)"
    using page_head_distinct [OF page_futures_distinct, of p s rs] by (simp add: hd)
  have sub: "set xs \<subseteq> set (page_head p ?fs)" by (auto simp: hd)
  have "\<forall>p' d' ok. Settled p' d' ok \<notin> set xs"
    using sub by (auto simp: page_head_set)
  moreover have "d \<notin> ids_downloaded s" using d by (simp add: page_futures_set)
  moreover have "Submit q d \<notin> set xs" "Submit q d \<notin> set ws" using dist by auto
  ultimately show ?thesis using q p notin vs by auto
qed



lemma page_events_settled:
  "Submit q d \<in> set (page_events env s p) \<Longrightarrow> \<exists>ok. Settled q d ok \<in> set (page_events env s p)"
proof -
  assume a: "Submit q d \<in> set (page_events env s p)"
  then obtain rs where
    p: "p \<notin> pages_done s" and
    ev: "page_events env s p =
          page_head p (page_futures s rs) @ page_settles env p rs (page_futures s rs)
            @ page_tail env s p (page_futures s rs)"
    by (rule page_events_full) simp_all
  from a have "Submit q d \<in> set (page_head p (page_futures s rs))"
    using page_settles_kinds [of "Submit q d" env p rs "page_futures s rs"]
    by (auto simp: ev page_tail_def)
  then have "q = p" "d \<in> set (page_futures s rs)" by (auto simp: page_head_set)
  then show ?thesis
    using page_settles_all [of d "page_futures s rs" p env rs] by (auto simp: ev)
qed

lemma page_events_success:
  "{d. \<exists>q. Settled q d True \<in> set (page_events env s p)} \<union> ids_downloaded s
     = ids_downloaded (page_step env s p)"
  by (auto simp: page_events_set collect_events_set page_step_ids downloaded_def
           split: if_splits option.splits)

lemma append_split_cases:
  assumes "A @ B = xs @ e # ys"
  shows "(\<exists>ws. A = xs @ e # ws \<and> ys = ws @ B) \<or> (\<exists>us. xs = A @ us \<and> B = us @ e # ys)"
proof -
  from assms obtain us where
    "(A = xs @ us \<and> us @ B = e # ys) \<or> (A @ us = xs \<and> B = us @ e # ys)"
    by (auto simp: append_eq_append_conv2)
  then show ?thesis
  proof
    assume h: "A = xs @ us \<and> us @ B = e # ys"
    show ?thesis
    proof (cases us)
      case Nil
      with h show ?thesis by auto
    next
      case (Cons u vs)
      with h show ?thesis by auto
    qed
  next
    assume "A @ us = xs \<and> B = us @ e # ys"
    then show ?thesis by auto
  qed
qed

lemma page_events_fetch:
  "FetchPage q \<in> set (page_events env s p) \<longleftrightarrow> q = p \<and> p \<notin> pages_done s"
  by (auto simp: page_events_set collect_events_set split: if_splits option.splits)

lemma run_events_fetch:
  "FetchPage q \<in> set (run_events env ps s) \<longleftrightarrow> q \<in> set ps \<and> q \<notin> pages_done s"
proof (induction ps arbitrary: s)
  case Nil
  show ?case by simp
next
  case (Cons p ps)
  show ?case
    by (auto simp: Cons page_events_fetch page_step_pages_done split: if_splits)
qed

lemma run_events_submit_page:
  "Submit q d \<in> set (run_events env ps s) \<Longrightarrow> q \<in> set ps \<and> d \<notin> ids_downloaded s"
proof (induction ps arbitrary: s)
  case Nil
  then show ?case by simp
next
  case (Cons p ps)
  from Cons.prems consider "Submit q d \<in> set (page_events env s p)"
    | "Submit q d \<in> set (run_events env ps (page_step env s p))" by auto
  then show ?case
  proof cases
    case 1
    then obtain xs vs where "page_events env s p = xs @ Submit q d # vs"
      by (auto simp: in_set_conv_decomp)
    from page_submit [OF this] show ?thesis by simp
  next
    case 2
    from Cons.IH [OF this] page_step_ids_mono [of s env p] show ?thesis by auto
  qed
qed

lemma run_events_settled:
  "Submit q d \<in> set (run_events env ps s) \<Longrightarrow> \<exists>ok. Settled q d ok \<in> set (run_events env ps s)"
proof (induction ps arbitrary: s)
  case Nil
  then show ?case by simp
next
  case (Cons p ps)
  from Cons.prems consider "Submit q d \<in> set (page_events env s p)"
    | "Submit q d \<in> set (run_events env ps (page_step env s p))" by auto
  then show ?case
  proof cases
    case 1
    from page_events_settled [OF this] show ?thesis by auto
  next
    case 2
    from Cons.IH [OF this] show ?thesis by auto
  qed
qed

lemma run_events_success:
  "{d. \<exists>q. Settled q d True \<in> set (run_events env ps s)} \<union> ids_downloaded s
     = ids_downloaded (run_pages env ps s)"
proof (induction ps arbitrary: s)
  case Nil
  show ?case by simp
next
  case (Cons p ps)
  have "{d. \<exists>q. Settled q d True \<in> set (run_events env (p # ps) s)} \<union> ids_downloaded s
      = {d. \<exists>q. Settled q d True \<in> set (run_events env ps (page_step env s p))}
        \<union> ({d. \<exists>q. Settled q d True \<in> set (page_events env s p)} \<union> ids_downloaded s)"
    by auto
  also have "\<dots> = ids_downloaded (run_pages env (p # ps) s)"
    by (simp add: page_events_success Cons)
  finally show ?case .
qed

lemma run_submit:
  assumes "run_events env ps s = xs @ Submit q d # ys" and "distinct ps"
  shows "d \<notin> ids_downloaded s \<and> (\<forall>p. Settled p d True \<notin> set xs)
         \<and> Submit q d \<notin> set xs \<and> Submit q d \<notin> set ys"
  using assms
proof (induction ps arbitrary: s xs)
  case Nil
  then show ?case by simp
next
  case (Cons p ps)
  let ?A = "page_events env s p" and ?s' = "page_step env s p"
  from Cons.prems(1) have "?A @ run_events env ps ?s' = xs @ Submit q d # ys" by simp
  from append_split_cases [OF this] show ?case
  proof
    assume "\<exists>ws. ?A = xs @ Submit q d # ws \<and> ys = ws @ run_events env ps ?s'"
    then obtain ws where A: "?A = xs @ Submit q d # ws" and ys: "ys = ws @ run_events env ps ?s'"
      by blast
    from page_submit [OF A] have q: "q = p" and d: "d \<notin> ids_downloaded s"
      and st: "\<forall>p' d' ok. Settled p' d' ok \<notin> set xs"
      and nx: "Submit q d \<notin> set xs" and nw: "Submit q d \<notin> set ws" by auto
    have "Submit q d \<notin> set (run_events env ps ?s')"
      using run_events_submit_page [of q d env ps ?s'] Cons.prems(2) q by auto
    with d st nx nw ys show ?thesis by auto
  next
    assume "\<exists>us. xs = ?A @ us \<and> run_events env ps ?s' = us @ Submit q d # ys"
    then obtain us where xs: "xs = ?A @ us" and B: "run_events env ps ?s' = us @ Submit q d # ys"
      by blast
    from Cons.prems(2) have dps: "distinct ps" and p: "p \<notin> set ps" by auto
    from Cons.IH [OF B dps] have d': "d \<notin> ids_downloaded ?s'"
      and st: "\<forall>p. Settled p d True \<notin> set us"
      and nu: "Submit q d \<notin> set us" and ny: "Submit q d \<notin> set ys" by auto
    from d' have d: "d \<notin> ids_downloaded s" using page_step_ids_mono [of s env p] by auto
    from d' have stA: "\<forall>p'. Settled p' d True \<notin> set ?A"
      using page_events_success [of env s p] by auto
    have "q \<in> set ps" using run_events_submit_page [of q d env ps ?s'] B by simp
    with p have "q \<noteq> p" by auto
    then have nA: "Submit q d \<notin> set ?A"
    proof -
      have "q = p" if "Submit q d \<in> set ?A"
      proof -
        from that obtain a b where "?A = a @ Submit q d # b" by (auto simp: in_set_conv_decomp)
        from page_submit [OF this] show ?thesis by simp
      qed
      with \<open>q \<noteq> p\<close> show ?thesis by auto
    qed
    from d st stA nu nA ny xs show ?thesis by auto
  qed
qed



subsection \<open>A whole run\<close>

lemma main_run:
  "load_progress pf = Inr pr \<Longrightarrow>
   main env pf csv = Inr (run_pages env [1..TOTAL_PAGES_TO_FETCH] (start pr pf csv))"
  by (simp add: main_def)


lemma start_simps [simp]:
  "trace (start pr pf csv) = []"
  "pages_done (start pr pf csv) = pages_done pr"
  "ids_downloaded (start pr pf csv) = ids_downloaded pr"
  "progress_file (start pr pf csv) = pf"
  by (simp_all add: start_def)

lemma run_events_skip: "set ps \<subseteq> pages_done s \<Longrightarrow> run_events env ps s = []"
  by (induction ps arbitrary: s) (simp_all add: page_events_def page_step_def)

lemma run_events_append:
  "run_events env (ps @ qs) s = run_events env ps s @ run_events env qs (run_pages env ps s)"
  by (induction ps arbitrary: s) simp_all

lemma upto_split2: "2 \<le> N \<Longrightarrow> [1..N] = [1, 2] @ [3..N]"
proof -
  assume a: "2 \<le> (N::int)"
  have "[1..N] = 1 # [1 + 1..N]" using a by (subst upto_rec1) simp_all
  also have "[1 + 1..N] = 2 # [2 + 1..N]" using a by (subst upto_rec1) simp_all
  finally show ?thesis by simp
qed

lemma total_split: "[1..TOTAL_PAGES_TO_FETCH] = [1, 2] @ [3..TOTAL_PAGES_TO_FETCH]"
  by (rule upto_split2) (simp add: TOTAL_PAGES_TO_FETCH_def)

lemma main_trace_eq:
  "load_progress pf = Inr pr \<Longrightarrow>
   main_trace env pf csv = Inr (run_events env [1..TOTAL_PAGES_TO_FETCH] (start pr pf csv))"
  by (simp add: main_trace_def main_run run_pages_trace)

lemma main_trace_two:
  assumes "load_progress pf = Inr pr" and "{3..TOTAL_PAGES_TO_FETCH} \<subseteq> pages_done pr"
  shows "main_trace env pf csv = Inr (run_events env [1, 2] (start pr pf csv))"
proof -
  have "pages_done (run_pages env [1, 2] (start pr pf csv))
        = pages_done pr \<union> {p \<in> set [1, 2]. post_aramadetaylist env p \<noteq> None}"
    by (simp only: run_pages_pages_done start_simps)
  then have "set [3..TOTAL_PAGES_TO_FETCH] \<subseteq> pages_done (run_pages env [1, 2] (start pr pf csv))"
    using assms(2) by auto
  then have "run_events env [3..TOTAL_PAGES_TO_FETCH] (run_pages env [1, 2] (start pr pf csv)) = []"
    by (rule run_events_skip)
  then show ?thesis
    using assms(1) by (simp only: main_trace_eq total_split run_events_append append_Nil2)
qed

lemma load_pf_ex:
  "load_progress pf_ex = Inr \<lparr>pages_done = {3..TOTAL_PAGES_TO_FETCH}, ids_downloaded = {''b''}\<rparr>"
  by (simp add: load_progress_def pf_ex_def)

lemma str7: "str_int 7 = ''7''"
  by (simp add: str_int_def str_nat.simps)



lemma run_events_page:
  "e \<in> set (run_events env ps s) \<Longrightarrow> \<exists>s' p. p \<in> set ps \<and> e \<in> set (page_events env s' p)"
proof (induction ps arbitrary: s)
  case Nil
  then show ?case by simp
next
  case (Cons p ps)
  from Cons.prems consider "e \<in> set (page_events env s p)"
    | "e \<in> set (run_events env ps (page_step env s p))" by auto
  then show ?case
  proof cases
    case 1
    then show ?thesis by auto
  next
    case 2
    from Cons.IH [OF this] show ?thesis by auto
  qed
qed

lemma page_events_submit_id:
  assumes "Submit q d \<in> set (page_events env s p)"
  shows "d \<noteq> '''' \<and> (\<exists>rs. post_aramadetaylist env q = Some rs \<and> d \<in> doc_id_of ` set rs)"
proof -
  from assms obtain rs where
    p: "post_aramadetaylist env p = Some rs" and
    ev: "page_events env s p =
          page_head p (page_futures s rs) @ page_settles env p rs (page_futures s rs)
            @ page_tail env s p (page_futures s rs)"
    by (rule page_events_full) simp_all
  from assms have "Submit q d \<in> set (page_head p (page_futures s rs))"
    using page_settles_kinds [of "Submit q d" env p rs "page_futures s rs"]
    by (auto simp: ev page_tail_def)
  then have "q = p" "d \<in> set (page_futures s rs)" by (auto simp: page_head_set)
  with p show ?thesis by (auto simp: page_futures_set)
qed

lemma page_events_settled_id:
  assumes "Settled q d ok \<in> set (page_events env s p)"
  shows "d \<noteq> ''''"
proof -
  from assms obtain rs where
    ev: "page_events env s p =
          page_head p (page_futures s rs) @ page_settles env p rs (page_futures s rs)
            @ page_tail env s p (page_futures s rs)"
    by (rule page_events_full) simp_all
  from assms have "Settled q d ok \<in> set (page_settles env p rs (page_futures s rs))"
    by (auto simp: ev page_tail_def page_head_set)
  from page_settles_kinds [OF this] have "d \<in> set (page_futures s rs)" by auto
  then show ?thesis by (auto simp: page_futures_set)
qed

lemma page_events_row_id:
  assumes "AppendRow r \<in> set (page_events env s p)"
  shows "\<exists>d m t. r = make_row d m t \<and> d \<noteq> ''''"
proof -
  from assms obtain rs where
    ev: "page_events env s p =
          page_head p (page_futures s rs) @ page_settles env p rs (page_futures s rs)
            @ page_tail env s p (page_futures s rs)"
    by (rule page_events_full) simp_all
  from assms have "AppendRow r \<in> set (page_settles env p rs (page_futures s rs))"
    by (auto simp: ev page_tail_def page_head_set)
  from page_settles_kinds [OF this] obtain d m t where
    "d \<in> set (page_futures s rs)" "r = make_row d m t" by auto
  then show ?thesis by (auto simp: page_futures_set)
qed

lemma run_events_submit_id:
  "Submit q d \<in> set (run_events env ps s) \<Longrightarrow>
     d \<noteq> '''' \<and> (\<exists>rs. post_aramadetaylist env q = Some rs \<and> d \<in> doc_id_of ` set rs)"
  using run_events_page page_events_submit_id by blast

lemma run_events_settled_id: "Settled q d ok \<in> set (run_events env ps s) \<Longrightarrow> d \<noteq> ''''"
  using run_events_page page_events_settled_id by blast

lemma run_events_row_id:
  "AppendRow r \<in> set (run_events env ps s) \<Longrightarrow> \<exists>d m t. r = make_row d m t \<and> d \<noteq> ''''"
  using run_events_page page_events_row_id by blast



lemma page_events_fetch_count:
  "count_list (page_events env s p) (FetchPage q) = (if q = p \<and> p \<notin> pages_done s then 1 else 0)"
proof (cases "FetchPage q \<in> set (page_events env s p)")
  case False
  then show ?thesis by (simp add: page_events_fetch count_list_0_iff)
next
  case True
  then have q: "q = p" "p \<notin> pages_done s" by (auto simp: page_events_fetch)
  show ?thesis
  proof (cases "post_aramadetaylist env p")
    case None
    with q show ?thesis by (simp add: page_events_def)
  next
    case (Some rs)
    let ?fs = "page_futures s rs"
    have "FetchPage p \<notin> set (map (Submit p) ?fs @ page_settles env p rs ?fs @ page_tail env s p ?fs)"
      using page_settles_kinds [of "FetchPage p" env p rs ?fs] by (auto simp: page_tail_def)
    then have "count_list (map (Submit p) ?fs @ page_settles env p rs ?fs @ page_tail env s p ?fs)
        (FetchPage p) = 0"
      by (simp only: count_list_0_iff not_False_eq_True)
    with q Some show ?thesis by (simp add: page_events_def page_head_def Let_def)
  qed
qed

lemma run_events_fetch_count:
  "distinct ps \<Longrightarrow>
   count_list (run_events env ps s) (FetchPage q) = (if q \<in> set ps \<and> q \<notin> pages_done s then 1 else 0)"
proof (induction ps arbitrary: s)
  case Nil
  show ?case by simp
next
  case (Cons p ps)
  then have IH: "\<And>s. count_list (run_events env ps s) (FetchPage q)
      = (if q \<in> set ps \<and> q \<notin> pages_done s then 1 else 0)" and p: "p \<notin> set ps" by auto
  show ?case
    using p by (auto simp: IH page_events_fetch_count page_step_pages_done)
qed

subsection \<open>Pages already done\<close>

lemma collect_env_agree:
  "download_document env' q = download_document env q \<Longrightarrow> collect env' q meta = collect env q meta"
  by (intro ext) (simp add: collect_def)

lemma download_all_env_agree:
  assumes "download_document env' q = download_document env q" and "completion env' = completion env"
  shows "download_all env' q rs s = download_all env q rs s"
  by (simp only: download_all_def collect_env_agree [OF assms(1)] assms(2))

lemma mark_done_env_agree:
  "order_pages env' = order_pages env \<Longrightarrow> order_ids env' = order_ids env \<Longrightarrow>
   mark_done env' q s = mark_done env q s"
  by (simp add: mark_done_def save_progress_eq progress_data_def)

lemma page_step_env_agree:
  assumes "post_aramadetaylist env' q = post_aramadetaylist env q"
    and "download_document env' q = download_document env q"
    and "completion env' = completion env"
    and "order_pages env' = order_pages env" and "order_ids env' = order_ids env"
  shows "page_step env' s q = page_step env s q"
  by (simp only: page_step_def assms(1) download_all_env_agree [OF assms(2,3)]
      mark_done_env_agree [OF assms(4,5)])

lemma page_step_skip: "p \<in> pages_done s \<Longrightarrow> page_step env s p = s"
  by (simp add: page_step_def)

lemma page_step_pages_mono: "pages_done s \<subseteq> pages_done (page_step env s p)"
  by (auto simp: page_step_pages_done)

lemma run_pages_env_agree:
  assumes "p \<in> pages_done s"
  shows "run_pages (env\<lparr>post_aramadetaylist := (post_aramadetaylist env)(p := r),
                        download_document := (download_document env)(p := g)\<rparr>) ps s
         = run_pages env ps s"
  using assms
proof (induction ps arbitrary: s)
  case Nil
  show ?case by simp
next
  case (Cons q ps)
  let ?env' = "env\<lparr>post_aramadetaylist := (post_aramadetaylist env)(p := r),
                    download_document := (download_document env)(p := g)\<rparr>"
  have step: "page_step ?env' s q = page_step env s q"
  proof (cases "q = p")
    case True
    with Cons.prems show ?thesis by (simp add: page_step_skip)
  next
    case False
    then show ?thesis by (intro page_step_env_agree) simp_all
  qed
  have "p \<in> pages_done (page_step env s q)"
    using Cons.prems page_step_pages_mono [of s env q] by auto
  from Cons.IH [OF this] have "run_pages ?env' ps (page_step env s q) = run_pages env ps (page_step env s q)" .
  then show ?case by (simp only: run_pages_Cons step)
qed

lemma run_events_submit_not_done:
  "Submit q d \<in> set (run_events env ps s) \<Longrightarrow> q \<notin> pages_done s"
proof (induction ps arbitrary: s)
  case Nil
  then show ?case by simp
next
  case (Cons p ps)
  from Cons.prems consider "Submit q d \<in> set (page_events env s p)"
    | "Submit q d \<in> set (run_events env ps (page_step env s p))" by auto
  then show ?case
  proof cases
    case 1
    then obtain xs vs where "page_events env s p = xs @ Submit q d # vs"
      by (auto simp: in_set_conv_decomp)
    from page_submit [OF this] show ?thesis by simp
  next
    case 2
    from Cons.IH [OF this] page_step_pages_mono [of s env p] show ?thesis by auto
  qed
qed

lemma main_unfold:
  assumes "main env pf csv = Inr s" and "load_progress pf = Inr pr"
  shows "s = run_pages env [1..TOTAL_PAGES_TO_FETCH] (start pr pf csv)"
proof -
  have "main env pf csv = Inr (run_pages env [1..TOTAL_PAGES_TO_FETCH] (start pr pf csv))"
    using assms(2) by (rule main_run)
  with assms(1) show ?thesis by simp
qed

lemma main_unfold_trace:
  assumes "main env pf csv = Inr s" and "load_progress pf = Inr pr"
  shows "trace s = run_events env [1..TOTAL_PAGES_TO_FETCH] (start pr pf csv)"
  by (simp only: main_unfold [OF assms] run_pages_trace start_simps append_Nil)

text \<open>
  C2. A page that is in \<^verbatim>\<open>pages_done\<close> when the run starts is skipped: the run neither
  requests that page nor submits a download for it, and the run ends in the same state
  whatever the remote side would now answer for that page and for its documents.
\<close>

theorem done_pages_not_refetched:
  assumes "main env pf csv = Inr s" and "load_progress pf = Inr pr" and "p \<in> pages_done pr"
  shows "FetchPage p \<notin> set (trace s) \<and> (\<forall>d. Submit p d \<notin> set (trace s))
         \<and> main (env\<lparr>post_aramadetaylist := (post_aramadetaylist env)(p := r),
                       download_document := (download_document env)(p := g)\<rparr>) pf csv = Inr s"
proof -
  let ?s0 = "start pr pf csv" and ?ps = "[1..TOTAL_PAGES_TO_FETCH]"
  let ?env' = "env\<lparr>post_aramadetaylist := (post_aramadetaylist env)(p := r),
                    download_document := (download_document env)(p := g)\<rparr>"
  have s: "s = run_pages env ?ps ?s0" using assms(1,2) by (rule main_unfold)
  have tr: "trace s = run_events env ?ps ?s0" using assms(1,2) by (rule main_unfold_trace)
  have p: "p \<in> pages_done ?s0" using assms(3) by simp
  have "FetchPage p \<notin> set (run_events env ?ps ?s0)" using p by (simp add: run_events_fetch)
  then have a: "FetchPage p \<notin> set (trace s)" by (simp add: tr)
  have b: "Submit p d \<notin> set (trace s)" for d
  proof
    assume "Submit p d \<in> set (trace s)"
    then have "Submit p d \<in> set (run_events env ?ps ?s0)" by (simp only: tr)
    from run_events_submit_not_done [OF this] p show False by simp
  qed
  have "run_pages ?env' ?ps ?s0 = run_pages env ?ps ?s0" using p by (rule run_pages_env_agree)
  then have c: "main ?env' pf csv = Inr s"
    using main_run [OF assms(2), of ?env' csv] by (simp only: s)
  from a b c show ?thesis by blast
qed

lemma main_ex: "main env_ex pf_ex None = Inr s_ex"
  unfolding s_ex_def using load_pf_ex by (rule main_run)

lemma trace_ex:
  "main_trace env_ex pf_ex None =
     Inr [FetchPage 1, Submit 1 ''7'', Settled 1 ''7'' False, MarkDone 1,
          SaveProgress (insert 1 {3..TOTAL_PAGES_TO_FETCH}) {''b''},
          FetchPage 2, Submit 2 ''7'', Submit 2 ''c'', Settled 2 ''c'' True,
          AppendRow [JStr ''c'', JStr '''', JStr '''', JStr '''', JStr '''', JStr '''', JStr '''',
            JStr '''', JStr ''text of c''],
          Settled 2 ''7'' True,
          AppendRow [JStr ''7'', JStr '''', JStr '''', JStr '''', JStr '''', JStr '''', JStr '''',
            JStr '''', JStr ''text of 7''],
          MarkDone 2,
          SaveProgress (insert 2 (insert 1 {3..TOTAL_PAGES_TO_FETCH})) {''b'', ''7'', ''c''}]"
  apply (simp add: main_trace_two [OF load_pf_ex])
  apply (simp add: page_events_def page_head_def page_settles_def page_tail_def Let_def env_ex_def
    page_futures_def metadata_by_id_def add_metadata_def doc_id_of_def get_field_def str7
    page_step_ids page_step_pages_done as_completed.simps collect_events_def downloaded_def make_row_def)
  done

lemma trace_s_ex:
  "trace s_ex =
         [FetchPage 1, Submit 1 ''7'', Settled 1 ''7'' False, MarkDone 1,
          SaveProgress (insert 1 {3..TOTAL_PAGES_TO_FETCH}) {''b''},
          FetchPage 2, Submit 2 ''7'', Submit 2 ''c'', Settled 2 ''c'' True,
          AppendRow [JStr ''c'', JStr '''', JStr '''', JStr '''', JStr '''', JStr '''', JStr '''',
            JStr '''', JStr ''text of c''],
          Settled 2 ''7'' True,
          AppendRow [JStr ''7'', JStr '''', JStr '''', JStr '''', JStr '''', JStr '''', JStr '''',
            JStr '''', JStr ''text of 7''],
          MarkDone 2,
          SaveProgress (insert 2 (insert 1 {3..TOTAL_PAGES_TO_FETCH})) {''b'', ''7'', ''c''}]"
  using trace_ex by (simp add: main_trace_def main_ex)


text \<open>
  A run to which C2 applies: page 3 is marked done in the progress file, is not requested,
  and a changed answer for it changes nothing.
\<close>

theorem done_pages_not_refetched_witness:
  "main env_ex pf_ex None = Inr s_ex
   \<and> load_progress pf_ex = Inr \<lparr>pages_done = {3..TOTAL_PAGES_TO_FETCH}, ids_downloaded = {''b''}\<rparr>
   \<and> 3 \<in> pages_done \<lparr>pages_done = {3..TOTAL_PAGES_TO_FETCH}, ids_downloaded = {''b''}\<rparr>
   \<and> FetchPage 3 \<notin> set (trace s_ex) \<and> (\<forall>d. Submit 3 d \<notin> set (trace s_ex))
   \<and> main (env_ex\<lparr>post_aramadetaylist := (post_aramadetaylist env_ex)(3 := Some [[(''id'', JStr ''n'')]]),
                  download_document := (download_document env_ex)(3 := (\<lambda>d. Some ''changed''))\<rparr>)
        pf_ex None = Inr s_ex"
proof -
  have m: "(3::int) \<in> pages_done \<lparr>pages_done = {3..TOTAL_PAGES_TO_FETCH}, ids_downloaded = {''b''}\<rparr>"
    by (simp add: TOTAL_PAGES_TO_FETCH_def)
  from done_pages_not_refetched [OF main_ex load_pf_ex m] main_ex load_pf_ex m
  show ?thesis by blast
qed

subsection \<open>The order of events\<close>

lemma distinct_total: "distinct [1..TOTAL_PAGES_TO_FETCH]"
  by simp



text \<open>
  C1, amended. Whenever a run submits the download of a document, the identifier was not in
  \<^verbatim>\<open>ids_downloaded\<close> when the run started, no download of that document has succeeded earlier
  in the run, and the same page submits it neither before nor after: a run never fetches a
  document that is already complete, and fetches a document at most once per page.
\<close>

theorem completed_unit_not_downloaded_again:
  assumes "main env pf csv = Inr s" and "load_progress pf = Inr pr"
    and "trace s = xs @ Submit q d # ys"
  shows "d \<notin> ids_downloaded pr \<and> (\<forall>p. Settled p d True \<notin> set xs)
         \<and> Submit q d \<notin> set xs \<and> Submit q d \<notin> set ys"
proof -
  have "run_events env [1..TOTAL_PAGES_TO_FETCH] (start pr pf csv) = xs @ Submit q d # ys"
    using main_unfold_trace [OF assms(1,2)] assms(3) by simp
  from run_submit [OF this distinct_total] show ?thesis by simp
qed

text \<open>
  A run to which the amended C1 applies, at the submission of document c on page 2.
\<close>

theorem completed_unit_not_downloaded_again_witness:
  "main env_ex pf_ex None = Inr s_ex
   \<and> load_progress pf_ex = Inr \<lparr>pages_done = {3..TOTAL_PAGES_TO_FETCH}, ids_downloaded = {''b''}\<rparr>
   \<and> trace s_ex = [FetchPage 1, Submit 1 ''7'', Settled 1 ''7'' False, MarkDone 1,
          SaveProgress (insert 1 {3..TOTAL_PAGES_TO_FETCH}) {''b''},
          FetchPage 2, Submit 2 ''7''] @ Submit 2 ''c'' #
         [Settled 2 ''c'' True,
          AppendRow [JStr ''c'', JStr '''', JStr '''', JStr '''', JStr '''', JStr '''', JStr '''',
            JStr '''', JStr ''text of c''],
          Settled 2 ''7'' True,
          AppendRow [JStr ''7'', JStr '''', JStr '''', JStr '''', JStr '''', JStr '''', JStr '''',
            JStr '''', JStr ''text of 7''],
          MarkDone 2,
          SaveProgress (insert 2 (insert 1 {3..TOTAL_PAGES_TO_FETCH})) {''b'', ''7'', ''c''}]
   \<and> ''c'' \<notin> ids_downloaded \<lparr>pages_done = {3..TOTAL_PAGES_TO_FETCH}, ids_downloaded = {''b''}\<rparr>"
proof -
  have d: "trace s_ex = [FetchPage 1, Submit 1 ''7'', Settled 1 ''7'' False, MarkDone 1,
          SaveProgress (insert 1 {3..TOTAL_PAGES_TO_FETCH}) {''b''},
          FetchPage 2, Submit 2 ''7''] @ Submit 2 ''c'' #
         [Settled 2 ''c'' True,
          AppendRow [JStr ''c'', JStr '''', JStr '''', JStr '''', JStr '''', JStr '''', JStr '''',
            JStr '''', JStr ''text of c''],
          Settled 2 ''7'' True,
          AppendRow [JStr ''7'', JStr '''', JStr '''', JStr '''', JStr '''', JStr '''', JStr '''',
            JStr '''', JStr ''text of 7''],
          MarkDone 2,
          SaveProgress (insert 2 (insert 1 {3..TOTAL_PAGES_TO_FETCH})) {''b'', ''7'', ''c''}]"
    by (simp add: trace_s_ex)
  from completed_unit_not_downloaded_again [OF main_ex load_pf_ex d] main_ex load_pf_ex d
  show ?thesis by blast
qed

text \<open>
  C1, as the specification states it, has a document fetched at most once in a run even
  when its identifier is listed on more than one page. It fails when a download fails:
  document 7 is listed on pages 1 and 2, its download on page 1 raises, and the run
  submits it again on page 2.
\<close>

theorem failed_unit_downloaded_again:
  "map_sum id (submissions ''7'') (main_trace env_ex pf_ex None) = Inr [1, 2]"
  by (simp add: trace_ex)

subsection \<open>Pages without records\<close>




subsection \<open>Records without an identifier\<close>

lemma str_nat_not_Nil: "str_nat n \<noteq> []"
  by (subst str_nat.simps) simp

lemma str_py_empty: "str_py v = '''' \<longleftrightarrow> v = JStr ''''"
  by (cases v) (auto simp: str_int_def str_nat_not_Nil)

lemma doc_id_of_empty:
  "doc_id_of r = '''' \<longleftrightarrow> map_of r ''id'' = None \<or> map_of r ''id'' = Some (JStr '''')"
  by (auto simp: doc_id_of_def get_field_def str_py_empty split: option.splits)

lemma metadata_fold_drop:
  "doc_id_of r = '''' \<Longrightarrow> foldl add_metadata m (removeAll r rs) = foldl add_metadata m rs"
proof (induction rs arbitrary: m)
  case Nil
  show ?case by simp
next
  case (Cons a rs)
  show ?case
  proof (cases "a = r")
    case True
    then have "add_metadata m a = m" using Cons.prems by (simp add: add_metadata_def)
    with True Cons show ?thesis by simp
  next
    case False
    with Cons show ?thesis by simp
  qed
qed

lemma metadata_drop: "doc_id_of r = '''' \<Longrightarrow> metadata_by_id (removeAll r rs) = metadata_by_id rs"
  by (simp add: metadata_by_id_def metadata_fold_drop)

lemma download_all_meta:
  "metadata_by_id rs' = metadata_by_id rs \<Longrightarrow> download_all env p rs' s = download_all env p rs s"
  by (simp add: download_all_def page_futures_def)

lemma download_all_Nil: "download_all env p [] s = s"
  by (simp add: download_all_def)

lemma page_step_Some:
  "p \<notin> pages_done s \<Longrightarrow> post_aramadetaylist env p = Some rs \<Longrightarrow>
   page_step env s p = mark_done env p (download_all env p rs (s\<lparr>trace := trace s @ [FetchPage p]\<rparr>))"
  by (cases "rs = []") (simp_all add: page_step_def download_all_Nil Let_def)

lemma page_step_drop:
  assumes "post_aramadetaylist env p = Some rs" and "doc_id_of r = ''''"
  shows "page_step (env\<lparr>post_aramadetaylist := (post_aramadetaylist env)(p := Some (removeAll r rs))\<rparr>) s q
         = page_step env s q"
proof (cases "q = p")
  case False
  then show ?thesis by (intro page_step_env_agree) simp_all
next
  case True
  let ?env' = "env\<lparr>post_aramadetaylist := (post_aramadetaylist env)(p := Some (removeAll r rs))\<rparr>"
  show ?thesis
  proof (cases "p \<in> pages_done s")
    case True
    with \<open>q = p\<close> show ?thesis by (simp add: page_step_skip)
  next
    case False
    have e: "post_aramadetaylist ?env' p = Some (removeAll r rs)" by simp
    have d: "download_all ?env' p (removeAll r rs) t = download_all env p rs t" for t
      using download_all_env_agree [of ?env' p env "removeAll r rs" t]
        download_all_meta [OF metadata_drop [OF assms(2)], of env p rs t] by simp
    have m: "mark_done ?env' p t = mark_done env p t" for t
      by (intro mark_done_env_agree) simp_all
    show ?thesis
      using \<open>q = p\<close> by (simp only: page_step_Some [OF False e] page_step_Some [OF False assms(1)] d m)
  qed
qed

lemma run_pages_drop:
  assumes "post_aramadetaylist env p = Some rs" and "doc_id_of r = ''''"
  shows "run_pages (env\<lparr>post_aramadetaylist := (post_aramadetaylist env)(p := Some (removeAll r rs))\<rparr>) ps s
         = run_pages env ps s"
proof (induction ps arbitrary: s)
  case Nil
  show ?case by simp
next
  case (Cons q ps)
  show ?case by (simp only: run_pages_Cons page_step_drop [OF assms] Cons)
qed

text \<open>
  C10. A record of a fetched page whose \<^verbatim>\<open>id\<close> field is missing or is the empty string has the
  empty identifier, and the run drops it: no download is submitted or collected for it, no
  row with that identifier is appended, the identifier does not enter \<^verbatim>\<open>ids_downloaded\<close>, the
  page is marked done all the same, and the run ends in the state it would reach if the
  record were not on the page.
\<close>

theorem record_without_id_dropped:
  assumes "main env pf csv = Inr s" and "load_progress pf = Inr pr"
    and "1 \<le> p" and "p \<le> TOTAL_PAGES_TO_FETCH"
    and "post_aramadetaylist env p = Some rs" and "r \<in> set rs"
    and "map_of r ''id'' = None \<or> map_of r ''id'' = Some (JStr '''')"
  shows "doc_id_of r = ''''
    \<and> (\<forall>q. Submit q (doc_id_of r) \<notin> set (trace s))
    \<and> (\<forall>q ok. Settled q (doc_id_of r) ok \<notin> set (trace s))
    \<and> (\<forall>cells. AppendRow (JStr (doc_id_of r) # cells) \<notin> set (trace s))
    \<and> (doc_id_of r \<in> ids_downloaded s \<longleftrightarrow> doc_id_of r \<in> ids_downloaded pr)
    \<and> p \<in> pages_done s
    \<and> main (env\<lparr>post_aramadetaylist := (post_aramadetaylist env)(p := Some (removeAll r rs))\<rparr>)
          pf csv = Inr s"
proof -
  let ?s0 = "start pr pf csv" and ?ps = "[1..TOTAL_PAGES_TO_FETCH]"
  let ?env' = "env\<lparr>post_aramadetaylist := (post_aramadetaylist env)(p := Some (removeAll r rs))\<rparr>"
  have s: "s = run_pages env ?ps ?s0" using assms(1,2) by (rule main_unfold)
  have tr: "trace s = run_events env ?ps ?s0" using assms(1,2) by (rule main_unfold_trace)
  have e: "doc_id_of r = ''''" using assms(7) by (simp add: doc_id_of_empty)
  have a: "Submit q '''' \<notin> set (trace s)" for q
    using run_events_submit_id [of q "''''" env ?ps ?s0] by (auto simp only: tr)
  have b: "Settled q '''' ok \<notin> set (trace s)" for q ok
    using run_events_settled_id [of q "''''" ok env ?ps ?s0] by (auto simp only: tr)
  have c: "AppendRow (JStr '''' # cells) \<notin> set (trace s)" for cells
  proof
    assume "AppendRow (JStr '''' # cells) \<in> set (trace s)"
    then have "AppendRow (JStr '''' # cells) \<in> set (run_events env ?ps ?s0)" by (simp only: tr)
    from run_events_row_id [OF this] show False by (auto simp: make_row_def)
  qed
  have d: "'''' \<in> ids_downloaded s \<longleftrightarrow> '''' \<in> ids_downloaded pr"
  proof -
    have "ids_downloaded s
        = {d. \<exists>q. Settled q d True \<in> set (run_events env ?ps ?s0)} \<union> ids_downloaded ?s0"
      by (simp only: s run_events_success)
    then have "ids_downloaded s = {d. \<exists>q. Settled q d True \<in> set (trace s)} \<union> ids_downloaded ?s0"
      by (simp only: tr)
    with b show ?thesis by auto
  qed
  have "pages_done s = pages_done ?s0 \<union> {p \<in> set ?ps. post_aramadetaylist env p \<noteq> None}"
    by (simp only: s run_pages_pages_done)
  then have f: "p \<in> pages_done s" using assms(3,4,5) by simp
  have "run_pages ?env' ?ps ?s0 = run_pages env ?ps ?s0"
    using assms(5) e by (rule run_pages_drop)
  then have g: "main ?env' pf csv = Inr s"
    using main_run [OF assms(2), of ?env' csv] by (simp only: s)
  from a b c d f g show ?thesis by (simp only: e) blast
qed

text \<open>
  A run to which C10 applies: page 1 holds a record without an \<^verbatim>\<open>id\<close> field.
\<close>

theorem record_without_id_dropped_witness:
  "main env_ex pf_ex None = Inr s_ex
   \<and> load_progress pf_ex = Inr \<lparr>pages_done = {3..TOTAL_PAGES_TO_FETCH}, ids_downloaded = {''b''}\<rparr>
   \<and> (1::int) \<le> 1 \<and> 1 \<le> TOTAL_PAGES_TO_FETCH
   \<and> post_aramadetaylist env_ex 1 =
        Some [[(''id'', JInt 7), (''daire'', JStr ''x'')], [(''id'', JStr '''')],
              [(''daire'', JStr ''y'')], [(''id'', JStr ''b'')]]
   \<and> [(''daire'', JStr ''y'')] \<in> set [[(''id'', JInt 7), (''daire'', JStr ''x'')], [(''id'', JStr '''')],
              [(''daire'', JStr ''y'')], [(''id'', JStr ''b'')]]
   \<and> map_of [(''daire'', JStr ''y'')] ''id'' = None
   \<and> doc_id_of [(''daire'', JStr ''y'')] = ''''
   \<and> 1 \<in> pages_done s_ex
   \<and> main (env_ex\<lparr>post_aramadetaylist := (post_aramadetaylist env_ex)
        (1 := Some [[(''id'', JInt 7), (''daire'', JStr ''x'')], [(''id'', JStr '''')],
                    [(''id'', JStr ''b'')]])\<rparr>) pf_ex None = Inr s_ex"
proof -
  let ?r = "[(''daire'', JStr ''y'')]"
  let ?rs = "[[(''id'', JInt 7), (''daire'', JStr ''x'')], [(''id'', JStr '''')],
              [(''daire'', JStr ''y'')], [(''id'', JStr ''b'')]]"
  have h1: "(1::int) \<le> 1" and h2: "1 \<le> TOTAL_PAGES_TO_FETCH"
    by (simp_all add: TOTAL_PAGES_TO_FETCH_def)
  have h3: "post_aramadetaylist env_ex 1 = Some ?rs" by (simp add: env_ex_def)
  have h4: "?r \<in> set ?rs" by simp
  have h5: "map_of ?r ''id'' = None \<or> map_of ?r ''id'' = Some (JStr '''')" by simp
  have h6: "removeAll ?r ?rs = [[(''id'', JInt 7), (''daire'', JStr ''x'')], [(''id'', JStr '''')],
                    [(''id'', JStr ''b'')]]" by simp
  from record_without_id_dropped [OF main_ex load_pf_ex h1 h2 h3 h4 h5]
  have "doc_id_of ?r = ''''" and "1 \<in> pages_done s_ex"
    and "main (env_ex\<lparr>post_aramadetaylist := (post_aramadetaylist env_ex)
        (1 := Some (removeAll ?r ?rs))\<rparr>) pf_ex None = Inr s_ex"
    by blast+
  with main_ex load_pf_ex h1 h2 h3 h4 show ?thesis by (simp only: h6) simp
qed

section \<open>Failed requests in the two scripts\<close>

lemma scrape_attempts_length: "length (attempts (scrape_attempts zyte as)) \<le> length as"
  by (induction as) (auto simp: after_failure_def split: attempt_outcome.splits)

lemma scrape_page_length: "length (attempts (scrape_page zyte)) \<le> 3"
  using scrape_attempts_length [of zyte "[0, 1, 2]"] by (simp add: scrape_page_def)

lemma scrape_page_all_fail:
  assumes "\<forall>a<3. zyte a = Status_error \<or> zyte a = Raised"
  shows "companies (scrape_page zyte) = None \<and> attempts (scrape_page zyte) = [0, 1, 2]
         \<and> sleeps (scrape_page zyte) = [1, 2] @ (if zyte 2 = Status_error then [4] else [])"
proof -
  have "zyte 0 = Status_error \<or> zyte 0 = Raised" "zyte 1 = Status_error \<or> zyte 1 = Raised"
    "zyte 2 = Status_error \<or> zyte 2 = Raised"
    using assms by simp_all
  then show ?thesis
    by (auto simp: scrape_page_def after_failure_def)
qed

lemma queue_put_fail:
  "\<forall>a<3. zy page a = Status_error \<or> zy page a = Raised \<Longrightarrow> queue_put zy page = []"
  using scrape_page_all_fail [of "zy page"] by (simp add: queue_put_def)

lemma upto_two: "[i..i + 1] = [i, i + 1]"
proof -
  have "[i..i + 1] = i # [i + 1..i + 1]" by (subst upto_rec1) simp_all
  then show ?thesis by simp
qed

lemma process_two_pages:
  "process_page_range zy page (page + 1) = queue_put zy page @ queue_put zy (page + 1)"
  by (simp add: process_page_range_def upto_two)

lemma trace_down: "main_trace env_down pf_ex None = Inr [FetchPage 1, FetchPage 2]"
  apply (simp add: main_trace_two [OF load_pf_ex])
  apply (simp add: page_events_def env_down_def page_step_pages_done)
  done

text \<open>
  C7, as the specification states it, has every failed fetch retried with exponential
  backoff. It fails for the court-records downloader: the request for page 1 raises, the
  page is requested once and not again, and the run goes on to page 2.
\<close>

theorem failed_page_request_not_retried:
  "post_aramadetaylist env_down 1 = None
   \<and> main_trace env_down pf_ex None = Inr [FetchPage 1, FetchPage 2]"
proof (intro conjI)
  show "post_aramadetaylist env_down 1 = None" by (simp add: env_down_def)
  show "main_trace env_down pf_ex None = Inr [FetchPage 1, FetchPage 2]" by (rule trace_down)
qed

text \<open>
  C7, amended. Only the company-list scraper retries: \<^verbatim>\<open>scrape_page\<close> makes at most three
  attempts for a page; when each of them meets a status other than 200 or an exception, it
  sleeps 1 and 2 seconds after the first two (and 4 seconds after a third bad status),
  returns \<^verbatim>\<open>None\<close>, and \<^verbatim>\<open>process_page_range\<close> puts nothing on the queue for that page and goes
  on to the next one. The court-records downloader does not retry: a page whose request
  raises is requested exactly once in the run, is not marked done, and the loop goes on to
  the next page. Neither loops forever on a failing page.
\<close>

theorem failed_fetch_bounded:
  "length (attempts (scrape_page zyte)) \<le> 3
   \<and> ((\<forall>a<3. zyte a = Status_error \<or> zyte a = Raised) \<longrightarrow>
        companies (scrape_page zyte) = None \<and> attempts (scrape_page zyte) = [0, 1, 2]
        \<and> sleeps (scrape_page zyte) = [1, 2] @ (if zyte 2 = Status_error then [4] else []))
   \<and> ((\<forall>a<3. zy page a = Status_error \<or> zy page a = Raised) \<longrightarrow>
        process_page_range zy page (page + 1) = queue_put zy (page + 1))
   \<and> (main env pf csv = Inr s \<and> load_progress pf = Inr pr
        \<and> 1 \<le> p \<and> p \<le> TOTAL_PAGES_TO_FETCH \<and> p \<notin> pages_done pr
        \<and> post_aramadetaylist env p = None \<longrightarrow>
        count_list (trace s) (FetchPage p) = 1 \<and> p \<notin> pages_done s
        \<and> (p < TOTAL_PAGES_TO_FETCH \<and> p + 1 \<notin> pages_done pr \<longrightarrow>
             FetchPage (p + 1) \<in> set (trace s)))"
proof -
  have u: "count_list (trace s) (FetchPage p) = 1 \<and> p \<notin> pages_done s
        \<and> (p < TOTAL_PAGES_TO_FETCH \<and> p + 1 \<notin> pages_done pr \<longrightarrow>
             FetchPage (p + 1) \<in> set (trace s))"
    if h: "main env pf csv = Inr s \<and> load_progress pf = Inr pr
        \<and> 1 \<le> p \<and> p \<le> TOTAL_PAGES_TO_FETCH \<and> p \<notin> pages_done pr
        \<and> post_aramadetaylist env p = None"
  proof -
    let ?s0 = "start pr pf csv" and ?ps = "[1..TOTAL_PAGES_TO_FETCH]"
    have s: "s = run_pages env ?ps ?s0" using h by (intro main_unfold) simp_all
    have tr: "trace s = run_events env ?ps ?s0" using h by (intro main_unfold_trace) simp_all
    have "count_list (run_events env ?ps ?s0) (FetchPage p)
        = (if p \<in> set ?ps \<and> p \<notin> pages_done ?s0 then 1 else 0)"
      using distinct_total by (rule run_events_fetch_count)
    then have a: "count_list (trace s) (FetchPage p) = 1" using h by (simp add: tr)
    have "pages_done s = pages_done ?s0 \<union> {p \<in> set ?ps. post_aramadetaylist env p \<noteq> None}"
      by (simp only: s run_pages_pages_done)
    then have b: "p \<notin> pages_done s" using h by simp
    have c: "FetchPage (p + 1) \<in> set (trace s)"
      if "p < TOTAL_PAGES_TO_FETCH \<and> p + 1 \<notin> pages_done pr"
      using that h by (simp add: tr run_events_fetch)
    from a b c show ?thesis by blast
  qed
  from scrape_page_length [of zyte] scrape_page_all_fail [of zyte]
    queue_put_fail [of zy page] process_two_pages [of zy page] u
  show ?thesis by (intro conjI impI) simp_all
qed

lemma main_down: "main env_down pf_ex None = Inr s_down"
  unfolding s_down_def using load_pf_ex by (rule main_run)

text \<open>
  Runs to which the amended C7 applies: page 3 of the company list always answers with a
  bad status, and page 1 of the court records cannot be requested.
\<close>

theorem failed_fetch_bounded_witness:
  "zyte_page3_down 3 0 = Status_error \<and> zyte_page3_down 3 1 = Status_error
   \<and> zyte_page3_down 3 2 = Status_error
   \<and> companies (scrape_page (zyte_page3_down 3)) = None
   \<and> attempts (scrape_page (zyte_page3_down 3)) = [0, 1, 2]
   \<and> sleeps (scrape_page (zyte_page3_down 3)) = [1, 2, 4]
   \<and> process_page_range zyte_page3_down 3 (3 + 1) = [(4, [(''U1'', ''Acme'')])]
   \<and> main env_down pf_ex None = Inr s_down
   \<and> load_progress pf_ex = Inr \<lparr>pages_done = {3..TOTAL_PAGES_TO_FETCH}, ids_downloaded = {''b''}\<rparr>
   \<and> (1::int) \<le> 1 \<and> 1 \<le> TOTAL_PAGES_TO_FETCH
   \<and> 1 \<notin> pages_done \<lparr>pages_done = {3..TOTAL_PAGES_TO_FETCH}, ids_downloaded = {''b''}\<rparr>
   \<and> post_aramadetaylist env_down 1 = None
   \<and> 1 < TOTAL_PAGES_TO_FETCH
   \<and> 1 + 1 \<notin> pages_done \<lparr>pages_done = {3..TOTAL_PAGES_TO_FETCH}, ids_downloaded = {''b''}\<rparr>
   \<and> count_list (trace s_down) (FetchPage 1) = 1 \<and> 1 \<notin> pages_done s_down
   \<and> FetchPage (1 + 1) \<in> set (trace s_down)"
proof -
  let ?pr = "\<lparr>pages_done = {3..TOTAL_PAGES_TO_FETCH}, ids_downloaded = {''b''}\<rparr>"
  have z0: "zyte_page3_down 3 0 = Status_error \<and> zyte_page3_down 3 1 = Status_error
      \<and> zyte_page3_down 3 2 = Status_error"
    by (simp add: zyte_page3_down_def)
  have z: "\<forall>a<3. zyte_page3_down 3 a = Status_error \<or> zyte_page3_down 3 a = Raised"
    by (simp add: zyte_page3_down_def)
  have q: "queue_put zyte_page3_down (3 + 1) = [(4, [(''U1'', ''Acme'')])]"
    by (simp add: queue_put_def scrape_page_def zyte_page3_down_def)
  have h: "(1::int) \<le> 1 \<and> 1 \<le> TOTAL_PAGES_TO_FETCH \<and> 1 \<notin> pages_done ?pr
      \<and> post_aramadetaylist env_down 1 = None \<and> 1 < TOTAL_PAGES_TO_FETCH
      \<and> 1 + 1 \<notin> pages_done ?pr"
    by (simp add: TOTAL_PAGES_TO_FETCH_def env_down_def)
  note t = failed_fetch_bounded [of "zyte_page3_down 3" zyte_page3_down 3 env_down pf_ex None s_down ?pr 1]
  from t z z0 have a: "companies (scrape_page (zyte_page3_down 3)) = None
    \<and> attempts (scrape_page (zyte_page3_down 3)) = [0, 1, 2]
    \<and> sleeps (scrape_page (zyte_page3_down 3)) = [1, 2, 4]" by simp
  from t z q have b: "process_page_range zyte_page3_down 3 (3 + 1) = [(4, [(''U1'', ''Acme'')])]"
    by simp
  from t main_down load_pf_ex h have c: "count_list (trace s_down) (FetchPage 1) = 1
    \<and> 1 \<notin> pages_done s_down \<and> FetchPage (1 + 1) \<in> set (trace s_down)" by blast
  from z0 a b main_down load_pf_ex h c show ?thesis by blast
qed

section \<open>Resuming the court-records downloader\<close>










section \<open>Resuming the company-list scraper\<close>

lemma take_result_fields:
  "max_workers (fst (take_result acc item)) = max_workers (fst acc)"
  "current_page (fst (take_result acc item)) = current_page (fst acc)"
  "scraped (fst (take_result acc item)) = scraped (fst acc)"
  "snd (take_result acc item) \<subseteq> insert (fst item) (snd acc)"
proof -
  obtain sc C where a: "acc = (sc, C)" by (cases acc)
  obtain page cs where i: "item = (page, cs)" by (cases item)
  show "max_workers (fst (take_result acc item)) = max_workers (fst acc)"
    by (simp add: a i take_result_def save_companies_batch_def)
  show "current_page (fst (take_result acc item)) = current_page (fst acc)"
    by (simp add: a i take_result_def save_companies_batch_def)
  show "scraped (fst (take_result acc item)) = scraped (fst acc)"
    by (simp add: a i take_result_def save_companies_batch_def)
  show "snd (take_result acc item) \<subseteq> insert (fst item) (snd acc)"
    by (auto simp: a i take_result_def)
qed

lemma fold_take_result:
  "max_workers (fst (foldl take_result acc rs)) = max_workers (fst acc)
   \<and> current_page (fst (foldl take_result acc rs)) = current_page (fst acc)
   \<and> scraped (fst (foldl take_result acc rs)) = scraped (fst acc)
   \<and> snd (foldl take_result acc rs) \<subseteq> snd acc \<union> fst ` set rs"
proof (induction rs arbitrary: acc)
  case Nil
  show ?case by simp
next
  case (Cons r rs)
  note IH = Cons [of "take_result acc r"]
  have "snd (foldl take_result (take_result acc r) rs) \<subseteq> snd (take_result acc r) \<union> fst ` set rs"
    using IH by blast
  also have "\<dots> \<subseteq> insert (fst r) (snd acc) \<union> fst ` set rs"
    using take_result_fields(4) [of acc r] by blast
  finally have "snd (foldl take_result acc (r # rs)) \<subseteq> snd acc \<union> fst ` set (r # rs)"
    by auto
  with IH show ?case by (simp add: take_result_fields)
qed

lemma queue_put_page: "(page, cs) \<in> set (queue_put zyte q) \<Longrightarrow> page = q"
  by (auto simp: queue_put_def split: option.splits if_splits)

lemma process_page_range_pages:
  "(page, cs) \<in> set (process_page_range zyte s e) \<Longrightarrow> s \<le> page \<and> page \<le> e"
  by (auto simp: process_page_range_def dest: queue_put_page)

lemma batch_ranges_lower:
  assumes "0 < max_workers sc" and "(s, e) \<in> set (batch_ranges sc)"
  shows "current_page sc \<le> s"
proof -
  from assms(2) obtain i where i: "0 \<le> i"
    and s: "s = current_page sc + i * (max_workers sc * 2 div max_workers sc)"
    by (auto simp: batch_ranges_def Let_def)
  have "max_workers sc * 2 div max_workers sc = 2" using assms(1) by simp
  with i s show ?thesis by simp
qed

lemma run_batch_unfold:
  assumes "foldl take_result (sc, {})
      (concat (map (\<lambda>(s, e). process_page_range zyte s e) (batch_ranges sc))) = (sc1, C)"
  shows "run_batch zyte sc =
     sc1\<lparr>scraped := scraped sc1 @ concat (map (\<lambda>(s, e). [s..e]) (batch_ranges sc)),
         current_page := (if C \<noteq> {} then Max C + 1 else current_page sc + max_workers sc * 2),
         saved_page := Some (if C \<noteq> {} then Max C + 1 else current_page sc + max_workers sc * 2)\<rparr>"
  using assms by (simp add: run_batch_def Let_def CompanyScraper_save_progress_def)

lemma run_batch_workers: "max_workers (run_batch zyte sc) = max_workers sc"
proof -
  let ?results = "concat (map (\<lambda>(s, e). process_page_range zyte s e) (batch_ranges sc))"
  obtain sc1 C where f: "foldl take_result (sc, {}) ?results = (sc1, C)"
    by (cases "foldl take_result (sc, {}) ?results")
  from fold_take_result [of "(sc, {})" ?results] f have "max_workers sc1 = max_workers sc" by simp
  then show ?thesis by (simp add: run_batch_unfold [OF f])
qed

lemma run_batch_scraped:
  "scraped (run_batch zyte sc) = scraped sc @ concat (map (\<lambda>(s, e). [s..e]) (batch_ranges sc))"
proof -
  let ?results = "concat (map (\<lambda>(s, e). process_page_range zyte s e) (batch_ranges sc))"
  obtain sc1 C where f: "foldl take_result (sc, {}) ?results = (sc1, C)"
    by (cases "foldl take_result (sc, {}) ?results")
  from fold_take_result [of "(sc, {})" ?results] f have "scraped sc1 = scraped sc" by simp
  then show ?thesis by (simp add: run_batch_unfold [OF f])
qed

lemma run_batch_current:
  assumes "0 < max_workers sc"
  shows "current_page sc \<le> current_page (run_batch zyte sc)"
proof -
  let ?results = "concat (map (\<lambda>(s, e). process_page_range zyte s e) (batch_ranges sc))"
  obtain sc1 C where f: "foldl take_result (sc, {}) ?results = (sc1, C)"
    by (cases "foldl take_result (sc, {}) ?results")
  from fold_take_result [of "(sc, {})" ?results] f
  have C: "C \<subseteq> fst ` set ?results" by simp
  have low: "current_page sc \<le> page" if "page \<in> C" for page
  proof -
    from that C have "page \<in> fst ` set ?results" by blast
    then obtain cs where "(page, cs) \<in> set ?results" by force
    then obtain s e where "(s, e) \<in> set (batch_ranges sc)"
      and "(page, cs) \<in> set (process_page_range zyte s e)" by auto
    with batch_ranges_lower [OF assms] process_page_range_pages [of page cs zyte s e]
    show ?thesis by fastforce
  qed
  have "finite (fst ` set ?results)" by (rule finite_imageI) (rule finite_set)
  with C have fin: "finite C" by (rule finite_subset)
  have cur: "current_page (run_batch zyte sc)
      = (if C \<noteq> {} then Max C + 1 else current_page sc + max_workers sc * 2)"
    by (simp add: run_batch_unfold [OF f])
  show ?thesis
  proof (cases "C = {}")
    case True
    with cur assms show ?thesis by simp
  next
    case False
    then have "Max C \<in> C" using fin by simp
    from low [OF this] cur False show ?thesis by simp
  qed
qed

lemma run_turns_scraped:
  "0 < max_workers sc \<Longrightarrow> page \<in> set (scraped (run_turns n zyte sc)) \<Longrightarrow>
   page \<in> set (scraped sc) \<or> current_page sc \<le> page"
proof (induction n arbitrary: sc)
  case 0
  then show ?case by simp
next
  case (Suc n)
  show ?case
  proof (cases "companies_found sc < total_companies_target")
    case False
    with Suc.prems show ?thesis by simp
  next
    case True
    with Suc.prems have "page \<in> set (scraped (run_turns n zyte (run_batch zyte sc)))" by simp
    with Suc.IH [of "run_batch zyte sc"] Suc.prems(1)
    have "page \<in> set (scraped (run_batch zyte sc)) \<or> current_page (run_batch zyte sc) \<le> page"
      by (simp add: run_batch_workers)
    then show ?thesis
    proof
      assume "page \<in> set (scraped (run_batch zyte sc))"
      then consider "page \<in> set (scraped sc)"
        | s e where "(s, e) \<in> set (batch_ranges sc)" "s \<le> page"
        by (auto simp: run_batch_scraped)
      then show ?thesis
      proof cases
        case 1
        then show ?thesis by simp
      next
        case 2
        with batch_ranges_lower [OF Suc.prems(1)] show ?thesis by fastforce
      qed
    next
      assume "current_page (run_batch zyte sc) \<le> page"
      with run_batch_current [OF Suc.prems(1), of zyte] show ?thesis by simp
    qed
  qed
qed

lemma resumed_run_lower_bound:
  assumes "0 < workers"
    and "page \<in> set (scraped (CompanyScraper_run n zyte (CompanyScraper_init workers (Some k) f)))"
  shows "k \<le> page"
  using run_turns_scraped [of "(CompanyScraper_init workers (Some k) f)
      \<lparr>companies_found := count_existing_companies (companies_file (CompanyScraper_init workers (Some k) f))\<rparr>"
      page n zyte] assms
  by (simp add: CompanyScraper_run_def CompanyScraper_init_def CompanyScraper_load_progress_def)




end
